theory Spec2Isabelle
  imports Main
begin

section \<open>JavaScript values\<close>

text \<open>
  The condition evaluator of \<^verbatim>\<open>form-renderer/condition.js\<close> works on plain JavaScript
  data: the schema's condition object and the form's values object. Values are embedded
  as a datatype. Numbers are restricted to integers (no \<^verbatim>\<open>NaN\<close>, no fractions).
  Arrays and objects carry the identity of their allocation (\<open>ref\<close>), because
  \<^verbatim>\<open>===\<close> and \<^verbatim>\<open>Array.prototype.includes\<close> compare them by reference and not
  by content. An object is the list of its own enumerable properties; a property lookup
  takes the first binding of a key.
\<close>

type_synonym ref = nat

datatype jsval =
    Undefined
  | Null
  | Bool bool
  | Num int
  | Str string
  | Arr ref "jsval list"
  | Obj ref "(string \<times> jsval) list"

datatype error = TypeError | SyntaxError

text \<open>An evaluation result is a fresh object: a finite map from property names to values.\<close>

type_synonym res = "string \<rightharpoonup> jsval"

text \<open>
  Two collaborators are library code and are taken as parameters:
  \<^verbatim>\<open>lodash/get\<close> (object, path; it never throws) and the regular-expression engine
  (\<^verbatim>\<open>RegExp(pattern, flags).test(value)\<close>, which throws a \<^verbatim>\<open>SyntaxError\<close> on a
  malformed pattern or flag string).
\<close>

type_synonym getter = "jsval \<Rightarrow> jsval \<Rightarrow> jsval"
type_synonym regexp = "jsval \<Rightarrow> jsval \<Rightarrow> jsval \<Rightarrow> error + bool"

text \<open>Truthiness, as tested by \<^verbatim>\<open>if (x)\<close>, \<^verbatim>\<open>!x\<close>, \<^verbatim>\<open>x ? a : b\<close> and \<^verbatim>\<open>x || y\<close>.\<close>

fun truthy :: "jsval \<Rightarrow> bool" where
  "truthy Undefined = False"
| "truthy Null = False"
| "truthy (Bool b) = b"
| "truthy (Num n) = (n \<noteq> 0)"
| "truthy (Str s) = (s \<noteq> [])"
| "truthy (Arr a xs) = True"
| "truthy (Obj a fs) = True"

definition js_or :: "jsval \<Rightarrow> jsval \<Rightarrow> jsval" where
  "js_or a b = (if truthy a then a else b)"

text \<open>\<^verbatim>\<open>a === b\<close>: primitives by type and value, arrays and objects by identity.\<close>

definition strict_equals :: "jsval \<Rightarrow> jsval \<Rightarrow> bool" where
  "strict_equals x y =
     (case (x, y) of
        (Undefined, Undefined) \<Rightarrow> True
      | (Null, Null) \<Rightarrow> True
      | (Bool a, Bool b) \<Rightarrow> a = b
      | (Num a, Num b) \<Rightarrow> a = b
      | (Str a, Str b) \<Rightarrow> a = b
      | (Arr a xs, Arr b ys) \<Rightarrow> a = b
      | (Obj a fs, Obj b gs) \<Rightarrow> a = b
      | _ \<Rightarrow> False)"

text \<open>
  \<^verbatim>\<open>xs.includes(v)\<close> compares with SameValueZero, which differs from \<^verbatim>\<open>===\<close> only
  on \<^verbatim>\<open>NaN\<close>.
\<close>

definition array_includes :: "jsval list \<Rightarrow> jsval \<Rightarrow> bool" where
  "array_includes xs v = list_ex (\<lambda>x. strict_equals x v) xs"

text \<open>
  \<^verbatim>\<open>o.k\<close> for a receiver that is neither \<^verbatim>\<open>null\<close> nor \<^verbatim>\<open>undefined\<close> and a key
  that no prototype defines (the evaluator reads \<^verbatim>\<open>then\<close>, \<^verbatim>\<open>else\<close>, \<^verbatim>\<open>and\<close>,
  \<^verbatim>\<open>sequence\<close>, \<^verbatim>\<open>or\<close>, \<^verbatim>\<open>not\<close>, \<^verbatim>\<open>when\<close> and the leaf options): a missing
  property reads as \<^verbatim>\<open>undefined\<close>.
\<close>

fun field :: "jsval \<Rightarrow> string \<Rightarrow> jsval" where
  "field (Obj a fs) k = (case map_of fs k of None \<Rightarrow> Undefined | Some v \<Rightarrow> v)"
| "field x k = Undefined"

definition rprop :: "res \<Rightarrow> string \<Rightarrow> jsval" where
  "rprop r k = (case r k of None \<Rightarrow> Undefined | Some v \<Rightarrow> v)"

text \<open>Decimal notation of an array index, the property name of an element.\<close>

fun dec :: "nat \<Rightarrow> string" where
  "dec n = (if n < 10 then [''0123456789'' ! n]
            else dec (n div 10) @ [''0123456789'' ! (n mod 10)])"

definition index_props :: "jsval list \<Rightarrow> (string \<times> jsval) list" where
  "index_props xs = zip (map dec [0..<length xs]) xs"

text \<open>
  The own enumerable properties of a value, as \<^verbatim>\<open>Object.entries(x)\<close> lists them and as
  the object spread \<^verbatim>\<open>{...x}\<close> copies them: the fields of an object, the indexed elements
  of an array, the indexed characters of a string, nothing for the other values. The
  fields come in the order of the list (an engine lists integer-like keys first; that
  reordering is not modelled).
\<close>

fun entries :: "jsval \<Rightarrow> (string \<times> jsval) list" where
  "entries (Obj a fs) = fs"
| "entries (Arr a xs) = index_props xs"
| "entries (Str s) = index_props (map (\<lambda>c. Str [c]) s)"
| "entries x = []"

definition spread :: "jsval \<Rightarrow> res" where
  "spread x = map_of (entries x)"

text \<open>
  A new array built during evaluation. No \<^verbatim>\<open>===\<close> is ever applied to such an array,
  so its identity is immaterial; it is tagged 0.
\<close>

definition new_array :: "jsval list \<Rightarrow> jsval" where
  "new_array xs = Arr 0 xs"

section \<open>Leaf tests\<close>

text \<open>
  \<^verbatim>\<open>lodash/isEmpty\<close>: \<^verbatim>\<open>null\<close> and \<^verbatim>\<open>undefined\<close> are empty, an array or a string is
  empty when its length is 0, an object when it has no own enumerable property, and
  every other value (numbers, booleans) is empty.
\<close>

fun lodashIsEmpty :: "jsval \<Rightarrow> bool" where
  "lodashIsEmpty Undefined = True"
| "lodashIsEmpty Null = True"
| "lodashIsEmpty (Bool b) = True"
| "lodashIsEmpty (Num n) = True"
| "lodashIsEmpty (Str s) = (s = [])"
| "lodashIsEmpty (Arr a xs) = (xs = [])"
| "lodashIsEmpty (Obj a fs) = (fs = [])"

fun is_number :: "jsval \<Rightarrow> bool" where
  "is_number (Num n) = True"
| "is_number x = False"

definition isEmptyValue :: "jsval \<Rightarrow> bool" where
  "isEmptyValue v = (if is_number v \<or> strict_equals v (Bool True) then False else lodashIsEmpty v)"

definition fieldCondition :: "regexp \<Rightarrow> jsval \<Rightarrow> jsval \<Rightarrow> error + bool" where
  "fieldCondition re v c =
     (if truthy (field c ''isNotEmpty'') then Inr (\<not> isEmptyValue v)
      else if truthy (field c ''isEmpty'') then Inr (isEmptyValue v)
      else if truthy (field c ''pattern'') then
        (case re (field c ''pattern'') (field c ''flags'') v of
           Inl e \<Rightarrow> Inl e
         | Inr m \<Rightarrow> Inr (if truthy (field c ''notMatch'') then \<not> m else m))
      else
        (let isMatched = (case field c ''is'' of
                            Arr a xs \<Rightarrow> array_includes xs v
                          | i \<Rightarrow> strict_equals v i)
         in Inr (if truthy (field c ''notMatch'') then \<not> isMatched else isMatched)))"

section \<open>The condition evaluator\<close>

definition positiveResult :: "jsval \<Rightarrow> res" where
  "positiveResult c = ([''visible'' \<mapsto> Bool True] ++ spread (field c ''then''))(''result'' \<mapsto> Bool True)"

definition negativeResult :: "jsval \<Rightarrow> res" where
  "negativeResult c = ([''visible'' \<mapsto> Bool False] ++ spread (field c ''else''))(''result'' \<mapsto> Bool False)"

text \<open>
  \<^verbatim>\<open>xs.map(f)\<close> where \<open>f\<close> may throw: the first exception, in element order, aborts the
  whole expression.
\<close>

fun sequence_results :: "(error + 'a) list \<Rightarrow> error + 'a list" where
  "sequence_results [] = Inr []"
| "sequence_results (Inl e # xs) = Inl e"
| "sequence_results (Inr x # xs) =
     (case sequence_results xs of Inl e \<Rightarrow> Inl e | Inr ys \<Rightarrow> Inr (x # ys))"

text \<open>
  The array spread \<^verbatim>\<open>[...x]\<close>: the elements of an array, the characters of a string,
  a \<^verbatim>\<open>TypeError\<close> for a value that is not iterable.
\<close>

fun spread_elems :: "jsval \<Rightarrow> error + jsval list" where
  "spread_elems (Arr a xs) = Inr xs"
| "spread_elems (Str s) = Inr (map (\<lambda>c. Str [c]) s)"
| "spread_elems x = Inl TypeError"

text \<open>The reducer callback of the \<^verbatim>\<open>sequence\<close> branch.\<close>

definition seq_step :: "res \<Rightarrow> res \<Rightarrow> error + res" where
  "seq_step acc r =
     (case spread_elems (rprop acc ''sets'') of
        Inl e \<Rightarrow> Inl e
      | Inr xs \<Rightarrow> Inr [''sets'' \<mapsto> new_array (xs @ (if truthy (rprop r ''set'') then [rprop r ''set''] else [])),
                      ''visible'' \<mapsto> js_or (rprop acc ''visible'') (rprop r ''visible''),
                      ''result'' \<mapsto> js_or (rprop acc ''result'') (rprop r ''result'')])"

text \<open>\<^verbatim>\<open>xs.reduce((acc, curr) => step(acc, f(curr)), init)\<close> with exceptions.\<close>

fun reduce_seq :: "(jsval \<Rightarrow> error + res) \<Rightarrow> jsval list \<Rightarrow> res \<Rightarrow> error + res" where
  "reduce_seq f [] acc = Inr acc"
| "reduce_seq f (c # cs) acc =
     (case f c of
        Inl e \<Rightarrow> Inl e
      | Inr r \<Rightarrow> (case seq_step acc r of Inl e \<Rightarrow> Inl e | Inr acc' \<Rightarrow> reduce_seq f cs acc'))"

lemma reduce_seq_cong [fundef_cong]:
  "cs = cs' \<Longrightarrow> acc = acc' \<Longrightarrow> (\<And>c. c \<in> set cs' \<Longrightarrow> f c = g c)
   \<Longrightarrow> reduce_seq f cs acc = reduce_seq g cs' acc'"
proof (induction cs arbitrary: cs' acc acc')
  case Nil
  then show ?case by simp
next
  case (Cons c cs)
  then show ?case by (auto split: sum.splits)
qed

lemma size_map_of:
  "map_of fs k = Some v \<Longrightarrow> size v < Suc (size_list (size_prod (\<lambda>_. 0) size) fs)"
  by (induction fs) (auto split: if_splits)

lemma size_arr_elem:
  "x \<in> set cs \<Longrightarrow> size x < size (Arr a cs)"
  by (induction cs) auto

lemma size_field_elem:
  "field c k = Arr a cs \<Longrightarrow> x \<in> set cs \<Longrightarrow> size x < size c"
proof (cases c)
  case (Obj b fs)
  assume p: "field c k = Arr a cs" and x: "x \<in> set cs"
  from p Obj obtain v where v: "map_of fs k = Some v" "v = Arr a cs"
    by (auto split: option.splits)
  from size_map_of [OF v(1)] v(2) size_arr_elem [OF x, of a] Obj show ?thesis by simp
qed auto

lemma size_field_truthy:
  "truthy (field c k) \<Longrightarrow> size (field c k) < size c"
  by (cases c) (auto split: option.splits dest: size_map_of)

function parseCondition :: "getter \<Rightarrow> regexp \<Rightarrow> jsval \<Rightarrow> jsval \<Rightarrow> error + res" where
  "parseCondition get re condition values =
     (if condition = Undefined \<or> condition = Null then Inl TypeError
      else case condition of
        Arr a cs \<Rightarrow>
          (case sequence_results (map (\<lambda>c. parseCondition get re c values) cs) of
             Inl e \<Rightarrow> Inl e
           | Inr rs \<Rightarrow>
               Inr (if \<not> list_ex (\<lambda>r. strict_equals (rprop r ''result'') (Bool False)) rs
                    then positiveResult condition else negativeResult condition))
      | _ \<Rightarrow>
          if truthy (field condition ''and'') then
            (case field condition ''and'' of
               Arr a cs \<Rightarrow>
                 (case sequence_results (map (\<lambda>c. parseCondition get re c values) cs) of
                    Inl e \<Rightarrow> Inl e
                  | Inr rs \<Rightarrow>
                      Inr (if \<not> list_ex (\<lambda>r. strict_equals (rprop r ''result'') (Bool False)) rs
                           then positiveResult condition else negativeResult condition))
             | _ \<Rightarrow> Inl TypeError)
          else if truthy (field condition ''sequence'') then
            (case field condition ''sequence'' of
               Arr a cs \<Rightarrow>
                 reduce_seq (\<lambda>c. parseCondition get re c values) cs
                   ((negativeResult condition)(''sets'' \<mapsto> new_array []))
             | _ \<Rightarrow> Inl TypeError)
          else if truthy (field condition ''or'') then
            (case field condition ''or'' of
               Arr a cs \<Rightarrow>
                 (case sequence_results (map (\<lambda>c. parseCondition get re c values) cs) of
                    Inl e \<Rightarrow> Inl e
                  | Inr rs \<Rightarrow>
                      Inr (if list_ex (\<lambda>r. strict_equals (rprop r ''result'') (Bool True)) rs
                           then positiveResult condition else negativeResult condition))
             | _ \<Rightarrow> Inl TypeError)
          else if truthy (field condition ''not'') then
            (case parseCondition get re (field condition ''not'') values of
               Inl e \<Rightarrow> Inl e
             | Inr r \<Rightarrow>
                 Inr (if \<not> truthy (rprop r ''result'')
                      then positiveResult condition else negativeResult condition))
          else
            (case field condition ''when'' of
               Str w \<Rightarrow>
                 (case fieldCondition re (get values (Str w)) condition of
                    Inl e \<Rightarrow> Inl e
                  | Inr b \<Rightarrow> Inr (if b then positiveResult condition else negativeResult condition))
             | Arr a ws \<Rightarrow>
                 (case sequence_results (map (\<lambda>w. fieldCondition re (get values w) condition) ws) of
                    Inl e \<Rightarrow> Inl e
                  | Inr bs \<Rightarrow>
                      Inr (if list_ex (\<lambda>b. b) bs
                           then positiveResult condition else negativeResult condition))
             | _ \<Rightarrow> Inr (negativeResult condition)))"
  by pat_completeness auto
termination
proof (relation "measure (\<lambda>(get, re, condition, values). size condition)")
qed (auto simp del: field.simps jsval.size intro: size_arr_elem size_field_elem size_field_truthy)

declare parseCondition.simps [simp del]

section \<open>The condition runtime\<close>

text \<open>
  \<^verbatim>\<open>lodash/isEqual\<close>: deep comparison. Arrays are equal when they have the same length
  and equal elements; objects when they have the same keys and equal values, whatever the
  order of the keys; identity plays no role.
\<close>

function isEqual :: "jsval \<Rightarrow> jsval \<Rightarrow> bool" where
  "isEqual x y =
     (case (x, y) of
        (Arr a xs, Arr b ys) \<Rightarrow> list_all2 isEqual xs ys
      | (Obj a fs, Obj b gs) \<Rightarrow>
          set (map fst fs) = set (map fst gs) \<and>
          list_all (\<lambda>k. isEqual (field x k) (field y k)) (map fst fs)
      | _ \<Rightarrow> x = y)"
  by pat_completeness auto
termination
proof (relation "measure (\<lambda>(x, y). size x)")
  fix x y :: jsval and p q a xs b ys x' y'
  assume "(p, q) = (x, y)" "p = Arr a xs" "q = Arr b ys" "x' \<in> set xs"
  then show "((x', y'), (x, y)) \<in> measure (\<lambda>(x, y). size x)"
    using size_arr_elem [of x' xs a] by simp
next
  fix x y :: jsval and p q a fs b gs k
  assume "(p, q) = (x, y)" "p = Obj a fs" "q = Obj b gs" "k \<in> set (map fst fs)"
  from \<open>(p, q) = (x, y)\<close> \<open>p = Obj a fs\<close> \<open>k \<in> set (map fst fs)\<close>
  obtain v where "map_of fs k = Some v" "x = Obj a fs"
    by (cases "map_of fs k") (auto simp: map_of_eq_None_iff)
  then show "((field x k, field y k), (x, y)) \<in> measure (\<lambda>(x, y). size x)"
    using size_map_of [of fs k v] by simp
qed simp

declare isEqual.simps [simp del]

text \<open>The state of one \<^verbatim>\<open>Condition\<close> component and the actions of its reducer.\<close>

record cstate =
  initial :: bool
  sets :: jsval

record action =
  atype :: string
  asets :: jsval

definition reducer :: "cstate \<Rightarrow> action \<Rightarrow> cstate" where
  "reducer state act =
     (if atype act = ''formResetted'' then state\<lparr>initial := True\<rparr>
      else if atype act = ''rememberSets'' then state\<lparr>initial := False, sets := asets act\<rparr>
      else state)"

definition init_state :: cstate where
  "init_state = \<lparr>initial = True, sets = new_array []\<rparr>"

text \<open>
  What an effect does to the outside world: the timer callbacks it schedules with
  \<^verbatim>\<open>setTimeout\<close>, in order, the actions it dispatches, and the exception it throws, if
  any. A timer callback of this component makes one call of \<^verbatim>\<open>formOptions.batch\<close>; it
  is represented by the \<^verbatim>\<open>formOptions.change(name, value)\<close> calls made inside that batch.
\<close>

type_synonym batch = "(string \<times> jsval) list"

record effects =
  timers :: "batch list"
  dispatches :: "action list"
  thrown :: "error option"

text \<open>\<^verbatim>\<open>const setters = conditionResult.set ? [conditionResult.set] : conditionResult.sets\<close>\<close>

definition setters_of :: "res \<Rightarrow> jsval" where
  "setters_of r = (if truthy (rprop r ''set'') then new_array [rprop r ''set''] else rprop r ''sets'')"


text \<open>\<^verbatim>\<open>xs[i]\<close>: an element, \<^verbatim>\<open>undefined\<close> out of range, a \<^verbatim>\<open>TypeError\<close> on
  \<^verbatim>\<open>null\<close> and \<^verbatim>\<open>undefined\<close>.\<close>

fun js_index :: "jsval \<Rightarrow> nat \<Rightarrow> error + jsval" where
  "js_index Undefined i = Inl TypeError"
| "js_index Null i = Inl TypeError"
| "js_index (Arr a xs) i = Inr (if i < length xs then xs ! i else Undefined)"
| "js_index (Str s) i = Inr (if i < length s then Str [s ! i] else Undefined)"
| "js_index (Obj a fs) i = Inr (field (Obj a fs) (dec i))"
| "js_index x i = Inr Undefined"

text \<open>
  The loop \<^verbatim>\<open>setters.forEach((setter, index) => ...)\<close> of the second effect, from
  index \<open>i\<close> on: the timer callbacks scheduled, and the exception that stopped the loop.
\<close>

fun schedule :: "cstate \<Rightarrow> jsval list \<Rightarrow> nat \<Rightarrow> batch list \<times> error option" where
  "schedule state [] i = ([], None)"
| "schedule state (setter # rest) i =
     (if \<not> truthy setter then schedule state rest (Suc i)
      else if initial state then
        (case schedule state rest (Suc i) of (ts, e) \<Rightarrow> (entries setter # ts, e))
      else
        (case js_index (sets state) i of
           Inl e \<Rightarrow> ([], Some e)
         | Inr old \<Rightarrow>
             if \<not> isEqual setter old then
               (case schedule state rest (Suc i) of (ts, e) \<Rightarrow> (entries setter # ts, e))
             else schedule state rest (Suc i)))"

text \<open>
  \<^verbatim>\<open>setters.length > 0\<close> for the candidates the component can compute: the length of an
  array or a string, the numeric \<^verbatim>\<open>length\<close> property of an object, \<^verbatim>\<open>undefined > 0\<close>
  otherwise. (A \<^verbatim>\<open>length\<close> property that is not a number would be coerced; that is not
  covered.)
\<close>

fun length_positive :: "jsval \<Rightarrow> bool" where
  "length_positive (Arr a xs) = (xs \<noteq> [])"
| "length_positive (Str s) = (s \<noteq> [])"
| "length_positive (Obj a fs) = (case field (Obj a fs) ''length'' of Num n \<Rightarrow> 0 < n | _ \<Rightarrow> False)"
| "length_positive x = False"

text \<open>The second effect, run when \<^verbatim>\<open>setters\<close> or \<^verbatim>\<open>state.initial\<close> has changed.\<close>

definition sets_effect :: "jsval \<Rightarrow> cstate \<Rightarrow> effects" where
  "sets_effect setters state =
     (if truthy setters \<and> length_positive setters \<and> (initial state \<or> \<not> isEqual setters (sets state)) then
        (case setters of
           Arr a xs \<Rightarrow>
             (case schedule state xs 0 of
                (ts, Some e) \<Rightarrow> \<lparr>timers = ts, dispatches = [], thrown = Some e\<rparr>
              | (ts, None) \<Rightarrow>
                  \<lparr>timers = ts, dispatches = [\<lparr>atype = ''rememberSets'', asets = setters\<rparr>], thrown = None\<rparr>)
         | _ \<Rightarrow> \<lparr>timers = [], dispatches = [], thrown = Some TypeError\<rparr>)
      else \<lparr>timers = [], dispatches = [], thrown = None\<rparr>)"

text \<open>The state after the dispatched actions have gone through the reducer.\<close>

definition apply_dispatches :: "cstate \<Rightarrow> effects \<Rightarrow> cstate" where
  "apply_dispatches state eff = foldl reducer state (dispatches eff)"

text \<open>\<^verbatim>\<open>return conditionResult.visible ? children : null\<close>\<close>

definition renders_children :: "res \<Rightarrow> bool" where
  "renders_children r = truthy (rprop r ''visible'')"

text \<open>\<^verbatim>\<open>Array.isArray\<close>, and the values on which a property can be read.\<close>

fun is_array :: "jsval \<Rightarrow> bool" where
  "is_array (Arr a xs) = True"
| "is_array x = False"

definition node :: "jsval \<Rightarrow> bool" where
  "node c = (c \<noteq> Undefined \<and> c \<noteq> Null \<and> \<not> is_array c)"

text \<open>
  The positive result as the specification words it, with the overrides spread after
  both default fields: \<^verbatim>\<open>{ visible: true, result: true, ...then }\<close>. It is compared
  with \<^verbatim>\<open>positiveResult\<close> of the source.
\<close>

definition spec_positiveResult :: "jsval \<Rightarrow> res" where
  "spec_positiveResult c = [''visible'' \<mapsto> Bool True, ''result'' \<mapsto> Bool True] ++ spread (field c ''then'')"

text \<open>\<^verbatim>\<open>typeof x === 'string'\<close>\<close>

fun is_string :: "jsval \<Rightarrow> bool" where
  "is_string (Str s) = True"
| "is_string x = False"

text \<open>The \<^verbatim>\<open>set\<close> map a child contributes to \<^verbatim>\<open>sets\<close>: \<^verbatim>\<open>result.set ? [result.set] : []\<close>.\<close>

definition set_of_result :: "res \<Rightarrow> jsval list" where
  "set_of_result r = (if truthy (rprop r ''set'') then [rprop r ''set''] else [])"

text \<open>
  The \<^verbatim>\<open>is\<close> test in the specification's words: the value is strictly equal to
  \<^verbatim>\<open>is\<close>, or a member of \<^verbatim>\<open>is\<close> when \<^verbatim>\<open>is\<close> is an array, XORed with \<^verbatim>\<open>notMatch\<close>.
\<close>

definition spec_is_test :: "jsval \<Rightarrow> jsval \<Rightarrow> bool" where
  "spec_is_test c v =
     ((case field c ''is'' of Arr a xs \<Rightarrow> array_includes xs v | i \<Rightarrow> strict_equals v i)
      \<noteq> truthy (field c ''notMatch''))"

text \<open>
  A leaf is a node none of whose combinator tags is truthy; its test is the \<^verbatim>\<open>is\<close> test
  when none of the earlier options is truthy.
\<close>

definition leaf_node :: "jsval \<Rightarrow> bool" where
  "leaf_node c = (node c \<and> \<not> truthy (field c ''and'') \<and> \<not> truthy (field c ''sequence'') \<and>
                  \<not> truthy (field c ''or'') \<and> \<not> truthy (field c ''not''))"

definition is_only :: "jsval \<Rightarrow> bool" where
  "is_only c = (\<not> truthy (field c ''isNotEmpty'') \<and> \<not> truthy (field c ''isEmpty'') \<and>
                \<not> truthy (field c ''pattern''))"

text \<open>
  One pass of the component in a render in which \<^verbatim>\<open>dirty\<close> has not changed, so that
  the first effect is skipped: the render evaluates the condition, the second effect runs
  on the candidate list, and the dispatched actions go through the reducer. (React skips
  the second effect when neither \<^verbatim>\<open>setters\<close> nor \<^verbatim>\<open>state.initial\<close> has changed since
  the previous pass; a skipped run would find the guard false again or the candidate
  equal to the remembered list, so that running it at every pass schedules the same
  writes.)
\<close>

definition render_pass :: "getter \<Rightarrow> regexp \<Rightarrow> jsval \<Rightarrow> jsval \<Rightarrow> cstate \<Rightarrow> error + effects \<times> cstate" where
  "render_pass get re condition values state =
     (case parseCondition get re condition values of
        Inl e \<Rightarrow> Inl e
      | Inr r \<Rightarrow>
          (let eff = sets_effect (setters_of r) state
           in Inr (eff, apply_dispatches state eff)))"

text \<open>An effect that does nothing, and the two actions the component dispatches.\<close>

definition no_effects :: effects where
  "no_effects = \<lparr>timers = [], dispatches = [], thrown = None\<rparr>"

definition remember :: "jsval \<Rightarrow> action" where
  "remember setters = \<lparr>atype = ''rememberSets'', asets = setters\<rparr>"



text \<open>
  The assignment maps of a candidate list \<open>xs\<close>, numbered from \<open>i\<close>, that are truthy
  and differ from the map remembered at the same index in \<open>ys\<close>
  (\<^verbatim>\<open>undefined\<close> beyond its end).
\<close>

definition nth_or_undefined :: "jsval list \<Rightarrow> nat \<Rightarrow> jsval" where
  "nth_or_undefined ys j = (if j < length ys then ys ! j else Undefined)"

definition changed_from :: "nat \<Rightarrow> jsval list \<Rightarrow> jsval list \<Rightarrow> jsval list" where
  "changed_from i ys xs =
     map fst (filter (\<lambda>(x, j). truthy x \<and> \<not> isEqual x (nth_or_undefined ys j))
                     (zip xs [i..<i + length xs]))"

text \<open>
  Satisfaction in the specification's words: a leaf is satisfied when its test holds for
  the field (for some named field when \<^verbatim>\<open>when\<close> is a list of names); an \<^verbatim>\<open>and\<close> node
  and a bare array when no child is unsatisfied; an \<^verbatim>\<open>or\<close> node when at least one child
  is satisfied; a \<^verbatim>\<open>not\<close> node when its child is not; a \<^verbatim>\<open>sequence\<close> counts as true when
  any child is; every other shape is not satisfied. It is defined on the expression and
  the values alone and is compared with the \<^verbatim>\<open>result\<close> flag of the evaluator.
\<close>

function spec_satisfied :: "getter \<Rightarrow> regexp \<Rightarrow> jsval \<Rightarrow> jsval \<Rightarrow> bool" where
  "spec_satisfied get re c V =
     (if c = Undefined \<or> c = Null then False
      else case c of
        Arr a cs \<Rightarrow> list_all (\<lambda>x. spec_satisfied get re x V) cs
      | _ \<Rightarrow>
          if truthy (field c ''and'') then
            (case field c ''and'' of
               Arr a cs \<Rightarrow> list_all (\<lambda>x. spec_satisfied get re x V) cs
             | _ \<Rightarrow> False)
          else if truthy (field c ''sequence'') then
            (case field c ''sequence'' of
               Arr a cs \<Rightarrow> list_ex (\<lambda>x. spec_satisfied get re x V) cs
             | _ \<Rightarrow> False)
          else if truthy (field c ''or'') then
            (case field c ''or'' of
               Arr a cs \<Rightarrow> list_ex (\<lambda>x. spec_satisfied get re x V) cs
             | _ \<Rightarrow> False)
          else if truthy (field c ''not'') then
            \<not> spec_satisfied get re (field c ''not'') V
          else
            (case field c ''when'' of
               Str w \<Rightarrow> fieldCondition re (get V (Str w)) c = Inr True
             | Arr a ws \<Rightarrow> list_ex (\<lambda>w. fieldCondition re (get V w) c = Inr True) ws
             | _ \<Rightarrow> False))"
  by pat_completeness auto
termination
proof (relation "measure (\<lambda>(get, re, c, V). size c)")
qed (auto simp del: field.simps jsval.size intro: size_arr_elem size_field_elem size_field_truthy)

declare spec_satisfied.simps [simp del]

section \<open>Inputs for the examples\<close>

text \<open>
  \<^verbatim>\<open>lodash/get\<close> for a path that is the name of an own property of the object, and a
  regular-expression engine that never matches (the examples carry no pattern, or a
  pattern that does not match the value).
\<close>

definition get_key :: getter where
  "get_key obj path = (case path of Str k \<Rightarrow> field obj k | _ \<Rightarrow> Undefined)"

definition regexp_none :: regexp where
  "regexp_none pattern flags v = Inr False"

section \<open>The branches of the evaluator\<close>

text \<open>
  One equation per branch of \<^verbatim>\<open>parseCondition\<close>, in the order in which the source
  tests them. A branch is entered on the truthiness of its tag.
\<close>

lemma parseCondition_nullish:
  "c = Undefined \<or> c = Null \<Longrightarrow> parseCondition get re c V = Inl TypeError"
  by (subst parseCondition.simps) simp

lemma parseCondition_array:
  "parseCondition get re (Arr a cs) V =
     (case sequence_results (map (\<lambda>c. parseCondition get re c V) cs) of
        Inl e \<Rightarrow> Inl e
      | Inr rs \<Rightarrow>
          Inr (if \<not> list_ex (\<lambda>r. strict_equals (rprop r ''result'') (Bool False)) rs
               then positiveResult (Arr a cs) else negativeResult (Arr a cs)))"
  by (subst parseCondition.simps) simp

lemma parseCondition_and:
  "node c \<Longrightarrow> field c ''and'' = Arr a cs \<Longrightarrow>
   parseCondition get re c V =
     (case sequence_results (map (\<lambda>c. parseCondition get re c V) cs) of
        Inl e \<Rightarrow> Inl e
      | Inr rs \<Rightarrow>
          Inr (if \<not> list_ex (\<lambda>r. strict_equals (rprop r ''result'') (Bool False)) rs
               then positiveResult c else negativeResult c))"
  by (subst parseCondition.simps) (auto simp: node_def split: jsval.splits)

lemma parseCondition_sequence:
  "node c \<Longrightarrow> \<not> truthy (field c ''and'') \<Longrightarrow> field c ''sequence'' = Arr a cs \<Longrightarrow>
   parseCondition get re c V =
     reduce_seq (\<lambda>c. parseCondition get re c V) cs ((negativeResult c)(''sets'' \<mapsto> new_array []))"
  by (subst parseCondition.simps) (auto simp: node_def split: jsval.splits)

lemma parseCondition_or:
  "node c \<Longrightarrow> \<not> truthy (field c ''and'') \<Longrightarrow> \<not> truthy (field c ''sequence'') \<Longrightarrow>
   field c ''or'' = Arr a cs \<Longrightarrow>
   parseCondition get re c V =
     (case sequence_results (map (\<lambda>c. parseCondition get re c V) cs) of
        Inl e \<Rightarrow> Inl e
      | Inr rs \<Rightarrow>
          Inr (if list_ex (\<lambda>r. strict_equals (rprop r ''result'') (Bool True)) rs
               then positiveResult c else negativeResult c))"
  by (subst parseCondition.simps) (auto simp: node_def split: jsval.splits)

lemma parseCondition_not:
  "node c \<Longrightarrow> \<not> truthy (field c ''and'') \<Longrightarrow> \<not> truthy (field c ''sequence'') \<Longrightarrow>
   \<not> truthy (field c ''or'') \<Longrightarrow> truthy (field c ''not'') \<Longrightarrow>
   parseCondition get re c V =
     (case parseCondition get re (field c ''not'') V of
        Inl e \<Rightarrow> Inl e
      | Inr r \<Rightarrow> Inr (if \<not> truthy (rprop r ''result'') then positiveResult c else negativeResult c))"
  by (subst parseCondition.simps) (auto simp: node_def split: jsval.splits)

lemma parseCondition_leaf:
  "node c \<Longrightarrow> \<not> truthy (field c ''and'') \<Longrightarrow> \<not> truthy (field c ''sequence'') \<Longrightarrow>
   \<not> truthy (field c ''or'') \<Longrightarrow> \<not> truthy (field c ''not'') \<Longrightarrow>
   parseCondition get re c V =
     (case field c ''when'' of
        Str w \<Rightarrow>
          (case fieldCondition re (get V (Str w)) c of
             Inl e \<Rightarrow> Inl e
           | Inr b \<Rightarrow> Inr (if b then positiveResult c else negativeResult c))
      | Arr a ws \<Rightarrow>
          (case sequence_results (map (\<lambda>w. fieldCondition re (get V w) c) ws) of
             Inl e \<Rightarrow> Inl e
           | Inr bs \<Rightarrow> Inr (if list_ex (\<lambda>b. b) bs then positiveResult c else negativeResult c))
      | _ \<Rightarrow> Inr (negativeResult c))"
  by (subst parseCondition.simps) (auto simp: node_def split: jsval.splits)

section \<open>Leaf tests: order and emptiness\<close>

text \<open>
  C7. \<^verbatim>\<open>fieldCondition\<close> tries \<^verbatim>\<open>isNotEmpty\<close>, then \<^verbatim>\<open>isEmpty\<close>, then
  \<^verbatim>\<open>pattern\<close> (the regular expression built from \<^verbatim>\<open>pattern\<close> and \<^verbatim>\<open>flags\<close>,
  negated by \<^verbatim>\<open>notMatch\<close>), then the \<^verbatim>\<open>is\<close> test (membership when \<^verbatim>\<open>is\<close> is an
  array, strict equality otherwise, negated by \<^verbatim>\<open>notMatch\<close>); the first option that is
  present (truthy) decides, whatever the later ones are. The emptiness predicate holds
  for a value iff the value is neither a number nor \<^verbatim>\<open>true\<close> and \<^verbatim>\<open>lodash/isEmpty\<close>
  holds for it: exactly \<^verbatim>\<open>undefined\<close>, \<^verbatim>\<open>null\<close>, \<^verbatim>\<open>false\<close>, the empty string,
  the empty array and the empty object.
\<close>

theorem fieldCondition_order:
  "(truthy (field c ''isNotEmpty'') \<longrightarrow> fieldCondition re v c = Inr (\<not> isEmptyValue v)) \<and>
   (\<not> truthy (field c ''isNotEmpty'') \<and> truthy (field c ''isEmpty'') \<longrightarrow>
      fieldCondition re v c = Inr (isEmptyValue v)) \<and>
   (\<not> truthy (field c ''isNotEmpty'') \<and> \<not> truthy (field c ''isEmpty'') \<and>
    truthy (field c ''pattern'') \<longrightarrow>
      fieldCondition re v c =
        map_sum id (\<lambda>m. m \<noteq> truthy (field c ''notMatch''))
          (re (field c ''pattern'') (field c ''flags'') v)) \<and>
   (\<not> truthy (field c ''isNotEmpty'') \<and> \<not> truthy (field c ''isEmpty'') \<and>
    \<not> truthy (field c ''pattern'') \<longrightarrow>
      fieldCondition re v c =
        Inr ((case field c ''is'' of Arr a xs \<Rightarrow> array_includes xs v | i \<Rightarrow> strict_equals v i)
             \<noteq> truthy (field c ''notMatch''))) \<and>
   (isEmptyValue v \<longleftrightarrow> \<not> is_number v \<and> v \<noteq> Bool True \<and> lodashIsEmpty v) \<and>
   (isEmptyValue v \<longleftrightarrow>
      (case v of Undefined \<Rightarrow> True | Null \<Rightarrow> True | Bool b \<Rightarrow> \<not> b | Num n \<Rightarrow> False
       | Str s \<Rightarrow> s = [] | Arr a xs \<Rightarrow> xs = [] | Obj a fs \<Rightarrow> fs = []))"
proof -
  have e: "isEmptyValue v \<longleftrightarrow> \<not> is_number v \<and> v \<noteq> Bool True \<and> lodashIsEmpty v"
    by (cases v) (auto simp: isEmptyValue_def strict_equals_def)
  have p: "\<not> truthy (field c ''isNotEmpty'') \<and> \<not> truthy (field c ''isEmpty'') \<and>
    truthy (field c ''pattern'') \<longrightarrow>
      fieldCondition re v c =
        map_sum id (\<lambda>m. m \<noteq> truthy (field c ''notMatch''))
          (re (field c ''pattern'') (field c ''flags'') v)"
    by (cases "re (field c ''pattern'') (field c ''flags'') v") (auto simp: fieldCondition_def)
  have i: "\<not> truthy (field c ''isNotEmpty'') \<and> \<not> truthy (field c ''isEmpty'') \<and>
    \<not> truthy (field c ''pattern'') \<longrightarrow>
      fieldCondition re v c =
        Inr ((case field c ''is'' of Arr a xs \<Rightarrow> array_includes xs v | i \<Rightarrow> strict_equals v i)
             \<noteq> truthy (field c ''notMatch''))"
    by (simp add: fieldCondition_def Let_def)
  have s: "isEmptyValue v \<longleftrightarrow>
      (case v of Undefined \<Rightarrow> True | Null \<Rightarrow> True | Bool b \<Rightarrow> \<not> b | Num n \<Rightarrow> False
       | Str s \<Rightarrow> s = [] | Arr a xs \<Rightarrow> xs = [] | Obj a fs \<Rightarrow> fs = [])"
    by (cases v) (auto simp: isEmptyValue_def strict_equals_def)
  show ?thesis
    using e p i s by (simp add: fieldCondition_def)
qed

text \<open>
  The four branches at concrete leaves: \<^verbatim>\<open>isNotEmpty\<close> wins over \<^verbatim>\<open>is\<close> on the value
  0, \<^verbatim>\<open>isEmpty\<close> holds for \<^verbatim>\<open>false\<close>, a pattern leaf follows the engine, and an
  \<^verbatim>\<open>is\<close> leaf with \<^verbatim>\<open>notMatch\<close> negates the comparison.
\<close>

theorem fieldCondition_order_witness:
  "fieldCondition regexp_none (Num 0) (Obj 1 [(''isNotEmpty'', Bool True), (''is'', Num 5)]) = Inr True \<and>
   fieldCondition regexp_none (Bool False) (Obj 1 [(''isEmpty'', Bool True)]) = Inr True \<and>
   fieldCondition regexp_none (Str ''x'') (Obj 1 [(''pattern'', Str ''^y''), (''notMatch'', Bool True)]) = Inr True \<and>
   fieldCondition regexp_none (Str ''x'') (Obj 1 [(''is'', Str ''x''), (''notMatch'', Bool True)]) = Inr False"
  using fieldCondition_order [of "Obj 1 [(''isNotEmpty'', Bool True), (''is'', Num 5)]" regexp_none "Num 0"]
    fieldCondition_order [of "Obj 1 [(''isEmpty'', Bool True)]" regexp_none "Bool False"]
    fieldCondition_order [of "Obj 1 [(''pattern'', Str ''^y''), (''notMatch'', Bool True)]" regexp_none "Str ''x''"]
    fieldCondition_order [of "Obj 1 [(''is'', Str ''x''), (''notMatch'', Bool True)]" regexp_none "Str ''x''"]
  by (simp add: regexp_none_def strict_equals_def)

section \<open>Result objects and child results\<close>

text \<open>The two result objects, property by property.\<close>

lemma positiveResult_apply:
  "positiveResult c k =
     (if k = ''result'' then Some (Bool True)
      else case spread (field c ''then'') k of
             Some v \<Rightarrow> Some v
           | None \<Rightarrow> if k = ''visible'' then Some (Bool True) else None)"
  by (auto simp: positiveResult_def map_add_def split: option.splits)

lemma negativeResult_apply:
  "negativeResult c k =
     (if k = ''result'' then Some (Bool False)
      else case spread (field c ''else'') k of
             Some v \<Rightarrow> Some v
           | None \<Rightarrow> if k = ''visible'' then Some (Bool False) else None)"
  by (auto simp: negativeResult_def map_add_def split: option.splits)

lemma pos_neq_neg: "positiveResult c \<noteq> negativeResult c"
proof
  assume "positiveResult c = negativeResult c"
  then have "positiveResult c ''result'' = negativeResult c ''result''" by simp
  then show False by (simp add: positiveResult_apply negativeResult_apply)
qed

lemma sequence_results_map_Inr:
  "sequence_results (map Inr rs) = Inr rs"
  by (induction rs) auto

lemma sequence_results_Inr_D:
  "sequence_results xs = Inr rs \<Longrightarrow> xs = map Inr rs"
  by (induction xs arbitrary: rs rule: sequence_results.induct) (auto split: sum.splits)

lemma sequence_results_Inr:
  "sequence_results xs = Inr rs \<longleftrightarrow> xs = map Inr rs"
  using sequence_results_map_Inr sequence_results_Inr_D by blast

lemma sequence_results_map:
  assumes "sequence_results (map f cs) = Inr rs"
  shows "length rs = length cs" and "\<And>i. i < length cs \<Longrightarrow> f (cs ! i) = Inr (rs ! i)"
proof -
  from assms have m: "map f cs = map Inr rs" by (simp add: sequence_results_Inr)
  then show "length rs = length cs" by (metis length_map)
  fix i assume "i < length cs"
  with m show "f (cs ! i) = Inr (rs ! i)"
    by (metis length_map nth_map)
qed

lemma sequence_results_elem:
  assumes "sequence_results (map f cs) = Inr rs" and "r \<in> set rs"
  shows "\<exists>c \<in> set cs. f c = Inr r"
proof -
  from assms(2) obtain i where i: "i < length rs" "rs ! i = r" by (auto simp: in_set_conv_nth)
  with sequence_results_map [OF assms(1)] show ?thesis
    by (metis nth_mem)
qed

lemma reduce_seq_eq:
  "acc ''sets'' = Some (Arr a xs) \<Longrightarrow>
   reduce_seq f cs acc =
     (case sequence_results (map f cs) of
        Inl e \<Rightarrow> Inl e
      | Inr rs \<Rightarrow>
          Inr (if cs = [] then acc
               else [''sets'' \<mapsto> new_array (xs @ concat (map set_of_result rs)),
                     ''visible'' \<mapsto> foldl js_or (rprop acc ''visible'') (map (\<lambda>r. rprop r ''visible'') rs),
                     ''result'' \<mapsto> foldl js_or (rprop acc ''result'') (map (\<lambda>r. rprop r ''result'') rs)]))"
proof (induction cs arbitrary: acc a xs)
  case Nil
  then show ?case by simp
next
  case (Cons c cs)
  show ?case
  proof (cases "f c")
    case (Inl e)
    then show ?thesis by simp
  next
    case (Inr r)
    let ?acc = "[''sets'' \<mapsto> new_array (xs @ set_of_result r),
                 ''visible'' \<mapsto> js_or (rprop acc ''visible'') (rprop r ''visible''),
                 ''result'' \<mapsto> js_or (rprop acc ''result'') (rprop r ''result'')]"
    have st: "seq_step acc r = Inr ?acc"
      using Cons.prems by (simp add: seq_step_def rprop_def set_of_result_def)
    have s: "?acc ''sets'' = Some (Arr 0 (xs @ set_of_result r))"
      by (simp add: new_array_def)
    have v: "rprop ?acc ''visible'' = js_or (rprop acc ''visible'') (rprop r ''visible'')"
      and b: "rprop ?acc ''result'' = js_or (rprop acc ''result'') (rprop r ''result'')"
      by (simp_all add: rprop_def)
    have "reduce_seq f (c # cs) acc = reduce_seq f cs ?acc"
      by (simp add: Inr st)
    also note Cons.IH [of ?acc 0 "xs @ set_of_result r", OF s]
    finally show ?thesis
      unfolding v b
      by (cases "sequence_results (map f cs)") (auto simp: Inr)
  qed
qed

lemma truthy_foldl_js_or:
  "truthy (foldl js_or a xs) \<longleftrightarrow> truthy a \<or> (\<exists>x \<in> set xs. truthy x)"
  by (induction xs arbitrary: a) (auto simp: js_or_def)

lemma foldl_js_or_Bool:
  "foldl js_or (Bool b) (map Bool bs) = Bool (b \<or> (\<exists>x \<in> set bs. x))"
  by (induction bs arbitrary: b) (auto simp: js_or_def)


lemma rprop_Some: "r k = Some v \<Longrightarrow> rprop r k = v"
  by (simp add: rprop_def)

lemma parseCondition_sequence_bad:
  "node c \<Longrightarrow> \<not> truthy (field c ''and'') \<Longrightarrow> truthy (field c ''sequence'') \<Longrightarrow>
   \<not> is_array (field c ''sequence'') \<Longrightarrow> parseCondition get re c V = Inl TypeError"
  by (subst parseCondition.simps) (auto simp: node_def split: jsval.splits)

lemma parseCondition_shape:
  assumes "parseCondition get re c V = Inr r"
    and "is_array c \<or> truthy (field c ''and'') \<or> \<not> truthy (field c ''sequence'')"
  shows "r = positiveResult c \<or> r = negativeResult c"
proof (cases "c = Undefined \<or> c = Null")
  case True
  with assms(1) show ?thesis by (simp add: parseCondition_nullish)
next
  case nn: False
  show ?thesis
  proof (cases c)
    case (Arr a cs)
    with assms(1) show ?thesis
      by (auto simp: parseCondition_array split: sum.splits if_splits)
  next
    case Undefined with nn show ?thesis by simp
  next
    case Null with nn show ?thesis by simp
  qed (insert assms, subst (asm) parseCondition.simps,
       auto split: sum.splits if_splits jsval.splits)+
qed

lemma sequence_result_flag:
  assumes "\<forall>r \<in> set rs. rprop r ''result'' = Bool True \<or> rprop r ''result'' = Bool False"
  shows "foldl js_or (Bool False) (map (\<lambda>r. rprop r ''result'') rs)
         = Bool (\<exists>r \<in> set rs. rprop r ''result'' = Bool True)"
proof -
  have m: "map (\<lambda>r. rprop r ''result'') rs = map Bool (map (\<lambda>r. rprop r ''result'' = Bool True) rs)"
    using assms by (induction rs) auto
  show ?thesis
    unfolding m foldl_js_or_Bool by simp
qed

lemma result_flag:
  "parseCondition get re c V = Inr r \<Longrightarrow>
   rprop r ''result'' = Bool True \<or> rprop r ''result'' = Bool False"
proof (induction "size c" arbitrary: c r rule: less_induct)
  case less
  show ?case
  proof (cases "is_array c \<or> truthy (field c ''and'') \<or> \<not> truthy (field c ''sequence'')")
    case True
    from parseCondition_shape [OF less.prems True] show ?thesis
      by (auto simp: rprop_def positiveResult_apply negativeResult_apply)
  next
    case False
    then have na: "\<not> is_array c" "\<not> truthy (field c ''and'')" "truthy (field c ''sequence'')"
      by auto
    have nn: "node c"
      using less.prems na by (auto simp: node_def parseCondition_nullish)
    obtain a cs where sq: "field c ''sequence'' = Arr a cs"
      using parseCondition_sequence_bad [OF nn na(2,3), of get re V] less.prems
      by (cases "field c ''sequence''") auto
    let ?f = "\<lambda>c. parseCondition get re c V"
    let ?init = "(negativeResult c)(''sets'' \<mapsto> new_array [])"
    have i: "?init ''sets'' = Some (Arr 0 [])" by (simp add: new_array_def)
    have eq: "parseCondition get re c V = reduce_seq ?f cs ?init"
      by (rule parseCondition_sequence [OF nn na(2) sq])
    from less.prems obtain rs where rs: "sequence_results (map ?f cs) = Inr rs"
      unfolding eq reduce_seq_eq [of ?init 0 "[]" ?f cs, OF i]
      by (cases "sequence_results (map ?f cs)") auto
    have r: "r = (if cs = [] then ?init
               else [''sets'' \<mapsto> new_array ([] @ concat (map set_of_result rs)),
                     ''visible'' \<mapsto> foldl js_or (rprop ?init ''visible'') (map (\<lambda>r. rprop r ''visible'') rs),
                     ''result'' \<mapsto> foldl js_or (rprop ?init ''result'') (map (\<lambda>r. rprop r ''result'') rs)])"
      using less.prems unfolding eq reduce_seq_eq [of ?init 0 "[]" ?f cs, OF i] rs by simp
    have ch: "\<forall>r' \<in> set rs. rprop r' ''result'' = Bool True \<or> rprop r' ''result'' = Bool False"
    proof
      fix r' assume "r' \<in> set rs"
      from sequence_results_elem [OF rs this] obtain c' where c': "c' \<in> set cs" "?f c' = Inr r'"
        by blast
      from size_field_elem [OF sq c'(1)] less.hyps c'(2) show
        "rprop r' ''result'' = Bool True \<or> rprop r' ''result'' = Bool False" by blast
    qed
    have ir: "rprop ?init ''result'' = Bool False"
      by (simp add: rprop_def negativeResult_apply)
    show ?thesis
    proof (cases "cs = []")
      case True
      with r ir show ?thesis by simp
    next
      case False
      with r have "r ''result'' = Some (foldl js_or (rprop ?init ''result'') (map (\<lambda>r. rprop r ''result'') rs))"
        by simp
      then have "rprop r ''result'' = foldl js_or (Bool False) (map (\<lambda>r. rprop r ''result'') rs)"
        unfolding ir by (rule rprop_Some)
      then show ?thesis
        unfolding sequence_result_flag [OF ch] by auto
    qed
  qed
qed


lemma strict_equals_Bool: "strict_equals x (Bool b) \<longleftrightarrow> x = Bool b"
  by (cases x) (auto simp: strict_equals_def)

lemma children_flags:
  assumes "sequence_results (map (\<lambda>c. parseCondition get re c V) cs) = Inr rs"
  shows "\<forall>r \<in> set rs. rprop r ''result'' = Bool True \<or> rprop r ''result'' = Bool False"
  using sequence_results_elem [OF assms] result_flag by blast

lemma gate_all:
  assumes "\<forall>r \<in> set rs. rprop r ''result'' = Bool True \<or> rprop r ''result'' = Bool False"
  shows "\<not> list_ex (\<lambda>r. strict_equals (rprop r ''result'') (Bool False)) rs
         \<longleftrightarrow> (\<forall>r \<in> set rs. rprop r ''result'' = Bool True)"
  using assms by (auto simp: list_ex_iff strict_equals_Bool)

lemma gate_any:
  "list_ex (\<lambda>r. strict_equals (rprop r ''result'') (Bool True)) rs
   \<longleftrightarrow> (\<exists>r \<in> set rs. rprop r ''result'' = Bool True)"
  by (simp add: list_ex_iff strict_equals_Bool)

lemma visible_default:
  "spread (field c ''then'') ''visible'' = None \<Longrightarrow> rprop (positiveResult c) ''visible'' = Bool True"
  "spread (field c ''else'') ''visible'' = None \<Longrightarrow> rprop (negativeResult c) ''visible'' = Bool False"
  by (simp_all add: rprop_def positiveResult_apply negativeResult_apply)

section \<open>Unrecognized nodes and empty child lists\<close>

text \<open>
  C9. A node that matches no variant (it is not an array, its \<^verbatim>\<open>and\<close>,
  \<^verbatim>\<open>sequence\<close>, \<^verbatim>\<open>or\<close> and \<^verbatim>\<open>not\<close> tags are absent or falsy, and its \<^verbatim>\<open>when\<close>
  is neither a string nor an array) evaluates, for every values map, to the negative
  result \<^verbatim>\<open>{ visible: false, ...else, result: false }\<close> and throws nothing. A node is a
  value on which properties can be read; \<^verbatim>\<open>null\<close> and \<^verbatim>\<open>undefined\<close> are not nodes
  (reading \<^verbatim>\<open>condition.then\<close> on them throws, see \<open>parseCondition_nullish\<close>).
\<close>

theorem unrecognized_node_negative:
  assumes "node c"
    and "\<not> truthy (field c ''and'')" and "\<not> truthy (field c ''sequence'')"
    and "\<not> truthy (field c ''or'')" and "\<not> truthy (field c ''not'')"
    and "\<not> is_string (field c ''when'')" and "\<not> is_array (field c ''when'')"
  shows "parseCondition get re c V = Inr (negativeResult c) \<and>
         rprop (negativeResult c) ''result'' = Bool False \<and>
         rprop (negativeResult c) ''visible'' =
           (case spread (field c ''else'') ''visible'' of None \<Rightarrow> Bool False | Some v \<Rightarrow> v)"
proof -
  have "parseCondition get re c V = Inr (negativeResult c)"
    using assms by (cases "field c ''when''") (simp_all add: parseCondition_leaf)
  then show ?thesis
    by (simp add: rprop_def negativeResult_apply split: option.splits)
qed

theorem unrecognized_node_negative_witness:
  "parseCondition get_key regexp_none
     (Obj 1 [(''whne'', Str ''a''), (''is'', Num 1), (''else'', Obj 2 [(''set'', Obj 3 [(''x'', Num 1)])])])
     (Obj 4 [(''a'', Num 1)])
   = Inr (negativeResult (Obj 1 [(''whne'', Str ''a''), (''is'', Num 1), (''else'', Obj 2 [(''set'', Obj 3 [(''x'', Num 1)])])])) \<and>
   rprop (negativeResult (Obj 1 [(''whne'', Str ''a''), (''is'', Num 1), (''else'', Obj 2 [(''set'', Obj 3 [(''x'', Num 1)])])])) ''visible'' = Bool False \<and>
   rprop (negativeResult (Obj 1 [(''whne'', Str ''a''), (''is'', Num 1), (''else'', Obj 2 [(''set'', Obj 3 [(''x'', Num 1)])])])) ''set'' = Obj 3 [(''x'', Num 1)]"
  using unrecognized_node_negative [of "Obj 1 [(''whne'', Str ''a''), (''is'', Num 1), (''else'', Obj 2 [(''set'', Obj 3 [(''x'', Num 1)])])]" get_key regexp_none "Obj 4 [(''a'', Num 1)]"]
  by (simp add: node_def spread_def rprop_def negativeResult_apply)

text \<open>
  C10, as amended. An \<^verbatim>\<open>and\<close> node with an empty child list and a bare empty array evaluate to the
  positive result, an \<^verbatim>\<open>or\<close> node with an empty child list to the negative result, for
  every values map. The positive result has \<^verbatim>\<open>result: true\<close> and, unless \<^verbatim>\<open>then\<close>
  overrides it, \<^verbatim>\<open>visible: true\<close>; the negative result has \<^verbatim>\<open>result: false\<close> and, unless
  \<^verbatim>\<open>else\<close> overrides it, \<^verbatim>\<open>visible: false\<close>. A bare array has no overrides.
\<close>

theorem empty_and_or:
  "(node c \<and> field c ''and'' = Arr a [] \<longrightarrow>
      parseCondition get re c V = Inr (positiveResult c)) \<and>
   parseCondition get re (Arr a []) V = Inr (positiveResult (Arr a [])) \<and>
   positiveResult (Arr a []) = [''visible'' \<mapsto> Bool True, ''result'' \<mapsto> Bool True] \<and>
   (node c \<and> \<not> truthy (field c ''and'') \<and> \<not> truthy (field c ''sequence'') \<and>
    field c ''or'' = Arr a [] \<longrightarrow>
      parseCondition get re c V = Inr (negativeResult c)) \<and>
   rprop (positiveResult c) ''result'' = Bool True \<and>
   rprop (negativeResult c) ''result'' = Bool False \<and>
   (spread (field c ''then'') ''visible'' = None \<longrightarrow> rprop (positiveResult c) ''visible'' = Bool True) \<and>
   (spread (field c ''else'') ''visible'' = None \<longrightarrow> rprop (negativeResult c) ''visible'' = Bool False)"
proof -
  have 1: "node c \<and> field c ''and'' = Arr a [] \<longrightarrow>
      parseCondition get re c V = Inr (positiveResult c)"
    by (simp add: parseCondition_and)
  have 2: "parseCondition get re (Arr a []) V = Inr (positiveResult (Arr a []))"
    by (simp add: parseCondition_array)
  have 3: "positiveResult (Arr a []) = [''visible'' \<mapsto> Bool True, ''result'' \<mapsto> Bool True]"
    by (simp add: positiveResult_def spread_def)
  have 4: "node c \<and> \<not> truthy (field c ''and'') \<and> \<not> truthy (field c ''sequence'') \<and>
    field c ''or'' = Arr a [] \<longrightarrow>
      parseCondition get re c V = Inr (negativeResult c)"
    by (simp add: parseCondition_or)
  show ?thesis
    using 1 2 3 4 by (simp add: rprop_def positiveResult_apply negativeResult_apply)
qed

theorem empty_and_or_witness:
  "parseCondition get_key regexp_none (Obj 1 [(''and'', Arr 2 [])]) (Obj 3 []) = Inr (positiveResult (Obj 1 [(''and'', Arr 2 [])])) \<and>
   rprop (positiveResult (Obj 1 [(''and'', Arr 2 [])])) ''visible'' = Bool True \<and>
   parseCondition get_key regexp_none (Obj 1 [(''or'', Arr 2 [])]) (Obj 3 []) = Inr (negativeResult (Obj 1 [(''or'', Arr 2 [])])) \<and>
   rprop (negativeResult (Obj 1 [(''or'', Arr 2 [])])) ''visible'' = Bool False"
  using empty_and_or [of "Obj 1 [(''and'', Arr 2 [])]" 2 get_key regexp_none "Obj 3 []"]
    empty_and_or [of "Obj 1 [(''or'', Arr 2 [])]" 2 get_key regexp_none "Obj 3 []"]
  by (simp add: node_def spread_def)

text \<open>
  C10, as the specification states it, fails on the \<^verbatim>\<open>visible\<close> flag when the node
  carries an override: \<^verbatim>\<open>{ and: [], then: { visible: false } }\<close> evaluates to
  \<^verbatim>\<open>visible: false\<close>, and \<^verbatim>\<open>{ or: [], else: { visible: true } }\<close> to \<^verbatim>\<open>visible: true\<close>.
\<close>

theorem empty_and_or_counterexample:
  "parseCondition get_key regexp_none
     (Obj 50 [(''and'', Arr 51 []), (''then'', Obj 52 [(''visible'', Bool False)])]) (Obj 53 [])
   = Inr [''visible'' \<mapsto> Bool False, ''result'' \<mapsto> Bool True] \<and>
   parseCondition get_key regexp_none
     (Obj 50 [(''or'', Arr 51 []), (''else'', Obj 52 [(''visible'', Bool True)])]) (Obj 53 [])
   = Inr [''visible'' \<mapsto> Bool True, ''result'' \<mapsto> Bool False]"
proof -
  let ?a = "Obj 50 [(''and'', Arr 51 []), (''then'', Obj 52 [(''visible'', Bool False)])]"
  let ?o = "Obj 50 [(''or'', Arr 51 []), (''else'', Obj 52 [(''visible'', Bool True)])]"
  have a: "parseCondition get_key regexp_none ?a (Obj 53 []) = Inr (positiveResult ?a)"
    by (simp add: parseCondition_and node_def)
  have o: "parseCondition get_key regexp_none ?o (Obj 53 []) = Inr (negativeResult ?o)"
    by (simp add: parseCondition_or node_def)
  have pa: "positiveResult ?a = [''visible'' \<mapsto> Bool False, ''result'' \<mapsto> Bool True]"
    by (auto simp: positiveResult_apply spread_def fun_eq_iff)
  have no: "negativeResult ?o = [''visible'' \<mapsto> Bool True, ''result'' \<mapsto> Bool False]"
    by (auto simp: negativeResult_apply spread_def fun_eq_iff)
  show ?thesis
    unfolding a o pa no by simp
qed

section \<open>The combinators\<close>

text \<open>
  C6, as amended. For every values map and child expressions that evaluate without an
  exception: an \<^verbatim>\<open>and\<close> node (or an expression given as a bare array) evaluates to its
  positive result iff the \<^verbatim>\<open>result\<close> flag of every child is true; an \<^verbatim>\<open>or\<close> node iff
  the \<^verbatim>\<open>result\<close> flag of at least one child is true; a \<^verbatim>\<open>not\<close> node iff the
  \<^verbatim>\<open>result\<close> flag of its child is false. The positive result has \<^verbatim>\<open>result: true\<close> and
  is visible unless the node's \<^verbatim>\<open>then\<close> overrides \<^verbatim>\<open>visible\<close>; the negative result has
  \<^verbatim>\<open>result: false\<close> and is not visible unless the node's \<^verbatim>\<open>else\<close> overrides
  \<^verbatim>\<open>visible\<close>. The \<^verbatim>\<open>visible\<close> flags of the children play no role.
\<close>

theorem combinators_gate_on_result:
  "(sequence_results (map (\<lambda>c. parseCondition get re c V) cs) = Inr rs \<longrightarrow>
      parseCondition get re (Arr a cs) V =
        Inr (if \<forall>r \<in> set rs. rprop r ''result'' = Bool True
             then positiveResult (Arr a cs) else negativeResult (Arr a cs))) \<and>
   (node c \<and> field c ''and'' = Arr a cs \<and>
    sequence_results (map (\<lambda>c. parseCondition get re c V) cs) = Inr rs \<longrightarrow>
      parseCondition get re c V =
        Inr (if \<forall>r \<in> set rs. rprop r ''result'' = Bool True
             then positiveResult c else negativeResult c)) \<and>
   (node c \<and> \<not> truthy (field c ''and'') \<and> \<not> truthy (field c ''sequence'') \<and>
    field c ''or'' = Arr a cs \<and>
    sequence_results (map (\<lambda>c. parseCondition get re c V) cs) = Inr rs \<longrightarrow>
      parseCondition get re c V =
        Inr (if \<exists>r \<in> set rs. rprop r ''result'' = Bool True
             then positiveResult c else negativeResult c)) \<and>
   (node c \<and> \<not> truthy (field c ''and'') \<and> \<not> truthy (field c ''sequence'') \<and>
    \<not> truthy (field c ''or'') \<and> truthy (field c ''not'') \<and>
    parseCondition get re (field c ''not'') V = Inr r \<longrightarrow>
      parseCondition get re c V =
        Inr (if rprop r ''result'' = Bool True then negativeResult c else positiveResult c)) \<and>
   (spread (field c ''then'') ''visible'' = None \<longrightarrow> rprop (positiveResult c) ''visible'' = Bool True) \<and>
   (spread (field c ''else'') ''visible'' = None \<longrightarrow> rprop (negativeResult c) ''visible'' = Bool False) \<and>
   rprop (positiveResult c) ''result'' = Bool True \<and>
   rprop (negativeResult c) ''result'' = Bool False"
proof -
  let ?f = "\<lambda>c. parseCondition get re c V"
  have arr: "sequence_results (map ?f cs) = Inr rs \<longrightarrow>
      parseCondition get re (Arr a cs) V =
        Inr (if \<forall>r \<in> set rs. rprop r ''result'' = Bool True
             then positiveResult (Arr a cs) else negativeResult (Arr a cs))"
  proof
    assume rs: "sequence_results (map ?f cs) = Inr rs"
    show "parseCondition get re (Arr a cs) V =
        Inr (if \<forall>r \<in> set rs. rprop r ''result'' = Bool True
             then positiveResult (Arr a cs) else negativeResult (Arr a cs))"
      using gate_all [OF children_flags [OF rs]] by (simp add: parseCondition_array rs)
  qed
  have conj: "node c \<and> field c ''and'' = Arr a cs \<and> sequence_results (map ?f cs) = Inr rs \<longrightarrow>
      parseCondition get re c V =
        Inr (if \<forall>r \<in> set rs. rprop r ''result'' = Bool True
             then positiveResult c else negativeResult c)"
  proof
    assume h: "node c \<and> field c ''and'' = Arr a cs \<and> sequence_results (map ?f cs) = Inr rs"
    then have rs: "sequence_results (map ?f cs) = Inr rs" by simp
    from h have eq: "parseCondition get re c V =
       (case sequence_results (map ?f cs) of
          Inl e \<Rightarrow> Inl e
        | Inr rs \<Rightarrow>
            Inr (if \<not> list_ex (\<lambda>r. strict_equals (rprop r ''result'') (Bool False)) rs
                 then positiveResult c else negativeResult c))"
      by (simp add: parseCondition_and)
    show "parseCondition get re c V =
        Inr (if \<forall>r \<in> set rs. rprop r ''result'' = Bool True
             then positiveResult c else negativeResult c)"
      using gate_all [OF children_flags [OF rs]] by (simp add: eq rs)
  qed
  have disj: "node c \<and> \<not> truthy (field c ''and'') \<and> \<not> truthy (field c ''sequence'') \<and>
    field c ''or'' = Arr a cs \<and> sequence_results (map ?f cs) = Inr rs \<longrightarrow>
      parseCondition get re c V =
        Inr (if \<exists>r \<in> set rs. rprop r ''result'' = Bool True
             then positiveResult c else negativeResult c)"
    by (simp add: parseCondition_or gate_any)
  have neg: "node c \<and> \<not> truthy (field c ''and'') \<and> \<not> truthy (field c ''sequence'') \<and>
    \<not> truthy (field c ''or'') \<and> truthy (field c ''not'') \<and>
    parseCondition get re (field c ''not'') V = Inr r \<longrightarrow>
      parseCondition get re c V =
        Inr (if rprop r ''result'' = Bool True then negativeResult c else positiveResult c)"
  proof
    assume h: "node c \<and> \<not> truthy (field c ''and'') \<and> \<not> truthy (field c ''sequence'') \<and>
      \<not> truthy (field c ''or'') \<and> truthy (field c ''not'') \<and>
      parseCondition get re (field c ''not'') V = Inr r"
    then have "rprop r ''result'' = Bool True \<or> rprop r ''result'' = Bool False"
      using result_flag by blast
    with h show "parseCondition get re c V =
        Inr (if rprop r ''result'' = Bool True then negativeResult c else positiveResult c)"
      by (auto simp: parseCondition_not)
  qed
  show ?thesis
    using arr conj disj neg visible_default [of c]
    by (simp add: rprop_def positiveResult_apply negativeResult_apply)
qed


lemmas leaf_eval = parseCondition_leaf node_def fieldCondition_def get_key_def strict_equals_def
  array_includes_def

text \<open>
  The truth table at \<^verbatim>\<open>a = 1, b = 2\<close> for the children \<^verbatim>\<open>a is 1\<close> (true) and
  \<^verbatim>\<open>b is 3\<close> (false).
\<close>

theorem combinators_gate_on_result_witness:
  "parseCondition get_key regexp_none
     (Obj 1 [(''and'', Arr 2 [Obj 3 [(''when'', Str ''a''), (''is'', Num 1)],
                              Obj 4 [(''when'', Str ''b''), (''is'', Num 3)]])])
     (Obj 5 [(''a'', Num 1), (''b'', Num 2)])
   = Inr (negativeResult
     (Obj 1 [(''and'', Arr 2 [Obj 3 [(''when'', Str ''a''), (''is'', Num 1)],
                              Obj 4 [(''when'', Str ''b''), (''is'', Num 3)]])])) \<and>
   parseCondition get_key regexp_none
     (Obj 1 [(''or'', Arr 2 [Obj 3 [(''when'', Str ''a''), (''is'', Num 1)],
                             Obj 4 [(''when'', Str ''b''), (''is'', Num 3)]])])
     (Obj 5 [(''a'', Num 1), (''b'', Num 2)])
   = Inr (positiveResult
     (Obj 1 [(''or'', Arr 2 [Obj 3 [(''when'', Str ''a''), (''is'', Num 1)],
                             Obj 4 [(''when'', Str ''b''), (''is'', Num 3)]])])) \<and>
   parseCondition get_key regexp_none
     (Obj 1 [(''not'', Obj 4 [(''when'', Str ''b''), (''is'', Num 3)])])
     (Obj 5 [(''a'', Num 1), (''b'', Num 2)])
   = Inr (positiveResult (Obj 1 [(''not'', Obj 4 [(''when'', Str ''b''), (''is'', Num 3)])])) \<and>
   parseCondition get_key regexp_none
     (Arr 2 [Obj 3 [(''when'', Str ''a''), (''is'', Num 1)],
             Obj 4 [(''when'', Str ''b''), (''is'', Num 3)]])
     (Obj 5 [(''a'', Num 1), (''b'', Num 2)])
   = Inr (negativeResult
     (Arr 2 [Obj 3 [(''when'', Str ''a''), (''is'', Num 1)],
             Obj 4 [(''when'', Str ''b''), (''is'', Num 3)]]))"
proof -
  let ?V = "Obj 5 [(''a'', Num 1), (''b'', Num 2)]"
  let ?p = "Obj 3 [(''when'', Str ''a''), (''is'', Num 1)]"
  let ?q = "Obj 4 [(''when'', Str ''b''), (''is'', Num 3)]"
  have p: "parseCondition get_key regexp_none ?p ?V = Inr (positiveResult ?p)"
    by (simp add: leaf_eval)
  have q: "parseCondition get_key regexp_none ?q ?V = Inr (negativeResult ?q)"
    by (simp add: leaf_eval)
  have rs: "sequence_results (map (\<lambda>c. parseCondition get_key regexp_none c ?V) [?p, ?q])
            = Inr [positiveResult ?p, negativeResult ?q]"
    by (simp add: p q)
  have fp: "rprop (positiveResult ?p) ''result'' = Bool True"
    and fq: "rprop (negativeResult ?q) ''result'' = Bool False"
    by (simp_all add: rprop_def positiveResult_apply negativeResult_apply)
  let ?rs = "[positiveResult ?p, negativeResult ?q]"
  have ha: "node (Obj 1 [(''and'', Arr 2 [?p, ?q])]) \<and>
            field (Obj 1 [(''and'', Arr 2 [?p, ?q])]) ''and'' = Arr 2 [?p, ?q] \<and>
            sequence_results (map (\<lambda>c. parseCondition get_key regexp_none c ?V) [?p, ?q]) = Inr ?rs"
    using rs by (simp add: node_def)
  have ho: "node (Obj 1 [(''or'', Arr 2 [?p, ?q])]) \<and>
            \<not> truthy (field (Obj 1 [(''or'', Arr 2 [?p, ?q])]) ''and'') \<and>
            \<not> truthy (field (Obj 1 [(''or'', Arr 2 [?p, ?q])]) ''sequence'') \<and>
            field (Obj 1 [(''or'', Arr 2 [?p, ?q])]) ''or'' = Arr 2 [?p, ?q] \<and>
            sequence_results (map (\<lambda>c. parseCondition get_key regexp_none c ?V) [?p, ?q]) = Inr ?rs"
    using rs by (simp add: node_def)
  have hn: "node (Obj 1 [(''not'', ?q)]) \<and>
            \<not> truthy (field (Obj 1 [(''not'', ?q)]) ''and'') \<and>
            \<not> truthy (field (Obj 1 [(''not'', ?q)]) ''sequence'') \<and>
            \<not> truthy (field (Obj 1 [(''not'', ?q)]) ''or'') \<and>
            truthy (field (Obj 1 [(''not'', ?q)]) ''not'') \<and>
            parseCondition get_key regexp_none (field (Obj 1 [(''not'', ?q)]) ''not'') ?V
              = Inr (negativeResult ?q)"
    using q by (simp add: node_def)
  note a = combinators_gate_on_result [of get_key regexp_none ?V "[?p, ?q]" ?rs 2
        "Obj 1 [(''and'', Arr 2 [?p, ?q])]", THEN conjunct2, THEN conjunct1, THEN mp, OF ha]
  note o = combinators_gate_on_result [of get_key regexp_none ?V "[?p, ?q]" ?rs 2
        "Obj 1 [(''or'', Arr 2 [?p, ?q])]", THEN conjunct2, THEN conjunct2, THEN conjunct1, THEN mp, OF ho]
  note n = combinators_gate_on_result [of get_key regexp_none ?V "[]" "[]" 2
        "Obj 1 [(''not'', ?q)]" "negativeResult ?q",
        THEN conjunct2, THEN conjunct2, THEN conjunct2, THEN conjunct1, THEN mp, OF hn]
  note b = combinators_gate_on_result [where get = get_key and re = regexp_none and V = ?V
        and cs = "[?p, ?q]" and rs = ?rs and a = 2, THEN conjunct1, THEN mp, OF rs]
  show ?thesis
    unfolding a o n b by (simp add: fp fq)
qed

text \<open>
  C6, as the specification states it, fails when a satisfied child hides itself: the only
  child of the \<^verbatim>\<open>and\<close> node evaluates to \<^verbatim>\<open>visible: false\<close>, and the node is visible.
\<close>

theorem combinators_gate_on_result_counterexample:
  "parseCondition get_key regexp_none
     (Obj 3 [(''when'', Str ''a''), (''is'', Num 1), (''then'', Obj 4 [(''visible'', Bool False)])])
     (Obj 5 [(''a'', Num 1)])
   = Inr (positiveResult
     (Obj 3 [(''when'', Str ''a''), (''is'', Num 1), (''then'', Obj 4 [(''visible'', Bool False)])])) \<and>
   rprop (positiveResult
     (Obj 3 [(''when'', Str ''a''), (''is'', Num 1), (''then'', Obj 4 [(''visible'', Bool False)])]))
     ''visible'' = Bool False \<and>
   parseCondition get_key regexp_none
     (Obj 1 [(''and'', Arr 2 [Obj 3 [(''when'', Str ''a''), (''is'', Num 1), (''then'', Obj 4 [(''visible'', Bool False)])]])])
     (Obj 5 [(''a'', Num 1)])
   = Inr (positiveResult
     (Obj 1 [(''and'', Arr 2 [Obj 3 [(''when'', Str ''a''), (''is'', Num 1), (''then'', Obj 4 [(''visible'', Bool False)])]])])) \<and>
   rprop (positiveResult
     (Obj 1 [(''and'', Arr 2 [Obj 3 [(''when'', Str ''a''), (''is'', Num 1), (''then'', Obj 4 [(''visible'', Bool False)])]])]))
     ''visible'' = Bool True"
proof -
  let ?V = "Obj 5 [(''a'', Num 1)]"
  let ?p = "Obj 3 [(''when'', Str ''a''), (''is'', Num 1), (''then'', Obj 4 [(''visible'', Bool False)])]"
  have p: "parseCondition get_key regexp_none ?p ?V = Inr (positiveResult ?p)"
    by (simp add: leaf_eval)
  have fp: "rprop (positiveResult ?p) ''result'' = Bool True"
    by (simp add: rprop_def positiveResult_apply)
  have a: "parseCondition get_key regexp_none (Obj 1 [(''and'', Arr 2 [?p])]) ?V
           = Inr (positiveResult (Obj 1 [(''and'', Arr 2 [?p])]))"
    by (simp add: parseCondition_and node_def p fp strict_equals_def)
  show ?thesis
    using p a by (simp add: rprop_def positiveResult_apply spread_def)
qed


section \<open>Leaves with an \<^verbatim>\<open>is\<close> test\<close>

lemma fieldCondition_is_only:
  "is_only c \<Longrightarrow> fieldCondition re v c = Inr (spec_is_test c v)"
  by (simp add: is_only_def fieldCondition_def spec_is_test_def Let_def)

lemma parseCondition_when_string:
  "leaf_node c \<Longrightarrow> field c ''when'' = Str w \<Longrightarrow>
   parseCondition get re c V =
     (case fieldCondition re (get V (Str w)) c of
        Inl e \<Rightarrow> Inl e
      | Inr b \<Rightarrow> Inr (if b then positiveResult c else negativeResult c))"
  by (simp add: leaf_node_def parseCondition_leaf)

lemma parseCondition_when_array:
  "leaf_node c \<Longrightarrow> field c ''when'' = Arr a ws \<Longrightarrow>
   parseCondition get re c V =
     (case sequence_results (map (\<lambda>w. fieldCondition re (get V w) c) ws) of
        Inl e \<Rightarrow> Inl e
      | Inr bs \<Rightarrow> Inr (if list_ex (\<lambda>b. b) bs then positiveResult c else negativeResult c))"
  by (simp add: leaf_node_def parseCondition_leaf)

lemma any_field:
  assumes "sequence_results (map f ws) = Inr bs"
  shows "list_ex (\<lambda>b. b) bs \<longleftrightarrow> (\<exists>w \<in> set ws. f w = Inr True)"
proof
  assume "list_ex (\<lambda>b. b) bs"
  then have "True \<in> set bs" by (auto simp: list_ex_iff)
  from sequence_results_elem [OF assms this] show "\<exists>w \<in> set ws. f w = Inr True" .
next
  assume "\<exists>w \<in> set ws. f w = Inr True"
  then obtain i where i: "i < length ws" "f (ws ! i) = Inr True"
    by (auto simp: in_set_conv_nth)
  from sequence_results_map [OF assms] i have "i < length bs" "bs ! i = True"
    by auto
  then have "True \<in> set bs" by (metis nth_mem)
  then show "list_ex (\<lambda>b. b) bs" by (auto simp: list_ex_iff)
qed

text \<open>
  C8, as amended. For all values maps and every leaf whose test is the \<^verbatim>\<open>is\<close> test (no
  truthy \<^verbatim>\<open>isNotEmpty\<close>, \<^verbatim>\<open>isEmpty\<close> or \<^verbatim>\<open>pattern\<close>), evaluation returns the positive
  result iff the value looked up at \<^verbatim>\<open>when\<close> is strictly equal to \<^verbatim>\<open>is\<close> (or a member of
  \<^verbatim>\<open>is\<close> when \<^verbatim>\<open>is\<close> is an array), XORed with \<^verbatim>\<open>notMatch\<close>, and the negative result
  otherwise; when \<^verbatim>\<open>when\<close> is an array of field names, it returns the positive result iff
  some named field individually satisfies the test (for the \<^verbatim>\<open>is\<close> test, and for every
  other test that throws nothing). The positive result has \<^verbatim>\<open>result: true\<close> and
  \<^verbatim>\<open>visible: true\<close> unless \<^verbatim>\<open>then\<close> overrides \<^verbatim>\<open>visible\<close>; the negative result has
  \<^verbatim>\<open>result: false\<close> and \<^verbatim>\<open>visible: false\<close> unless \<^verbatim>\<open>else\<close> overrides \<^verbatim>\<open>visible\<close>.
\<close>

theorem is_leaf_test:
  "(leaf_node c \<and> is_only c \<and> field c ''when'' = Str w \<longrightarrow>
      parseCondition get re c V =
        Inr (if spec_is_test c (get V (Str w)) then positiveResult c else negativeResult c)) \<and>
   (leaf_node c \<and> is_only c \<and> field c ''when'' = Arr a ws \<longrightarrow>
      parseCondition get re c V =
        Inr (if \<exists>w \<in> set ws. spec_is_test c (get V w) then positiveResult c else negativeResult c)) \<and>
   (leaf_node c \<and> field c ''when'' = Arr a ws \<and>
    sequence_results (map (\<lambda>w. fieldCondition re (get V w) c) ws) = Inr bs \<longrightarrow>
      parseCondition get re c V =
        Inr (if \<exists>w \<in> set ws. fieldCondition re (get V w) c = Inr True
             then positiveResult c else negativeResult c)) \<and>
   (spread (field c ''then'') ''visible'' = None \<longrightarrow> rprop (positiveResult c) ''visible'' = Bool True) \<and>
   (spread (field c ''else'') ''visible'' = None \<longrightarrow> rprop (negativeResult c) ''visible'' = Bool False) \<and>
   rprop (positiveResult c) ''result'' = Bool True \<and>
   rprop (negativeResult c) ''result'' = Bool False"
proof -
  have s: "leaf_node c \<and> is_only c \<and> field c ''when'' = Str w \<longrightarrow>
      parseCondition get re c V =
        Inr (if spec_is_test c (get V (Str w)) then positiveResult c else negativeResult c)"
    by (simp add: parseCondition_when_string fieldCondition_is_only)
  have g: "leaf_node c \<and> field c ''when'' = Arr a ws \<and>
    sequence_results (map (\<lambda>w. fieldCondition re (get V w) c) ws) = Inr bs \<longrightarrow>
      parseCondition get re c V =
        Inr (if \<exists>w \<in> set ws. fieldCondition re (get V w) c = Inr True
             then positiveResult c else negativeResult c)"
    using any_field [of "\<lambda>w. fieldCondition re (get V w) c" ws bs]
    by (simp add: parseCondition_when_array)
  have a: "leaf_node c \<and> is_only c \<and> field c ''when'' = Arr a ws \<longrightarrow>
      parseCondition get re c V =
        Inr (if \<exists>w \<in> set ws. spec_is_test c (get V w) then positiveResult c else negativeResult c)"
  proof
    assume h: "leaf_node c \<and> is_only c \<and> field c ''when'' = Arr a ws"
    then have m: "map (\<lambda>w. fieldCondition re (get V w) c) ws = map Inr (map (\<lambda>w. spec_is_test c (get V w)) ws)"
      by (simp add: fieldCondition_is_only)
    have sr: "sequence_results (map (\<lambda>w. fieldCondition re (get V w) c) ws)
              = Inr (map (\<lambda>w. spec_is_test c (get V w)) ws)"
      unfolding m by (rule sequence_results_map_Inr)
    have "parseCondition get re c V =
        Inr (if list_ex (\<lambda>b. b) (map (\<lambda>w. spec_is_test c (get V w)) ws)
             then positiveResult c else negativeResult c)"
      using h by (simp add: parseCondition_when_array sr)
    then show "parseCondition get re c V =
        Inr (if \<exists>w \<in> set ws. spec_is_test c (get V w) then positiveResult c else negativeResult c)"
      by (simp add: list_ex_iff)
  qed
  show ?thesis
    using s a g visible_default [of c]
    by (simp add: rprop_def positiveResult_apply negativeResult_apply)
qed

text \<open>
  The examples of the specification, \<^verbatim>\<open>{ when: 'country', is: 'US' }\<close> on
  \<^verbatim>\<open>{ country: 'US' }\<close> and on \<^verbatim>\<open>{ country: 'CA' }\<close>, and a leaf over two fields with a
  negated membership test.
\<close>

theorem is_leaf_test_witness:
  "parseCondition get_key regexp_none
     (Obj 1 [(''when'', Str ''country''), (''is'', Str ''US'')]) (Obj 2 [(''country'', Str ''US'')])
   = Inr (positiveResult (Obj 1 [(''when'', Str ''country''), (''is'', Str ''US'')])) \<and>
   rprop (positiveResult (Obj 1 [(''when'', Str ''country''), (''is'', Str ''US'')])) ''visible'' = Bool True \<and>
   parseCondition get_key regexp_none
     (Obj 1 [(''when'', Str ''country''), (''is'', Str ''US'')]) (Obj 2 [(''country'', Str ''CA'')])
   = Inr (negativeResult (Obj 1 [(''when'', Str ''country''), (''is'', Str ''US'')])) \<and>
   rprop (negativeResult (Obj 1 [(''when'', Str ''country''), (''is'', Str ''US'')])) ''visible'' = Bool False \<and>
   parseCondition get_key regexp_none
     (Obj 1 [(''when'', Arr 3 [Str ''a'', Str ''b'']), (''is'', Arr 4 [Num 1, Num 2]), (''notMatch'', Bool True)])
     (Obj 2 [(''a'', Num 1), (''b'', Num 7)])
   = Inr (positiveResult
     (Obj 1 [(''when'', Arr 3 [Str ''a'', Str ''b'']), (''is'', Arr 4 [Num 1, Num 2]), (''notMatch'', Bool True)])) \<and>
   parseCondition get_key regexp_none
     (Obj 20 [(''when'', Arr 21 [Str ''a'', Str ''b'']), (''isNotEmpty'', Bool True)])
     (Obj 22 [(''a'', Str []), (''b'', Str ''x'')])
   = Inr (positiveResult (Obj 20 [(''when'', Arr 21 [Str ''a'', Str ''b'']), (''isNotEmpty'', Bool True)]))"
proof -
  let ?c = "Obj 1 [(''when'', Str ''country''), (''is'', Str ''US'')]"
  let ?d = "Obj 1 [(''when'', Arr 3 [Str ''a'', Str ''b'']), (''is'', Arr 4 [Num 1, Num 2]), (''notMatch'', Bool True)]"
  have hc: "leaf_node ?c \<and> is_only ?c \<and> field ?c ''when'' = Str ''country''"
    by (simp add: leaf_node_def is_only_def node_def)
  have hd: "leaf_node ?d \<and> is_only ?d \<and> field ?d ''when'' = Arr 3 [Str ''a'', Str ''b'']"
    by (simp add: leaf_node_def is_only_def node_def)
  note us = is_leaf_test [where c = ?c and w = "''country''" and get = get_key and re = regexp_none
      and V = "Obj 2 [(''country'', Str ''US'')]", THEN conjunct1, THEN mp, OF hc]
  note ca = is_leaf_test [where c = ?c and w = "''country''" and get = get_key and re = regexp_none
      and V = "Obj 2 [(''country'', Str ''CA'')]", THEN conjunct1, THEN mp, OF hc]
  note ar = is_leaf_test [where c = ?d and a = 3 and ws = "[Str ''a'', Str ''b'']" and get = get_key
      and re = regexp_none and V = "Obj 2 [(''a'', Num 1), (''b'', Num 7)]",
      THEN conjunct2, THEN conjunct1, THEN mp, OF hd]
  let ?e = "Obj 20 [(''when'', Arr 21 [Str ''a'', Str ''b'']), (''isNotEmpty'', Bool True)]"
  let ?W = "Obj 22 [(''a'', Str []), (''b'', Str ''x'')]"
  have he: "leaf_node ?e \<and> field ?e ''when'' = Arr 21 [Str ''a'', Str ''b''] \<and>
            sequence_results (map (\<lambda>w. fieldCondition regexp_none (get_key ?W w) ?e) [Str ''a'', Str ''b''])
              = Inr [False, True]"
    by (simp add: leaf_node_def node_def fieldCondition_def get_key_def isEmptyValue_def strict_equals_def)
  note ne = is_leaf_test [where c = ?e and a = 21 and ws = "[Str ''a'', Str ''b'']" and get = get_key
      and re = regexp_none and V = ?W and bs = "[False, True]",
      THEN conjunct2, THEN conjunct2, THEN conjunct1, THEN mp, OF he]
  show ?thesis
    unfolding us ca ar ne
    by (simp add: spec_is_test_def get_key_def strict_equals_def array_includes_def
        rprop_def positiveResult_apply negativeResult_apply spread_def
        fieldCondition_def isEmptyValue_def)
qed

text \<open>
  C8, as the specification states it, fails on a leaf whose \<^verbatim>\<open>else\<close> shows the field: the
  value 2 is not strictly equal to 1, \<^verbatim>\<open>notMatch\<close> is absent, and the result is visible.
\<close>

theorem is_leaf_test_counterexample:
  "\<not> strict_equals (get_key (Obj 4 [(''a'', Num 2)]) (Str ''a'')) (Num 1) \<and>
   \<not> truthy (field (Obj 1 [(''when'', Str ''a''), (''is'', Num 1), (''else'', Obj 2 [(''visible'', Bool True)])]) ''notMatch'') \<and>
   parseCondition get_key regexp_none
     (Obj 1 [(''when'', Str ''a''), (''is'', Num 1), (''else'', Obj 2 [(''visible'', Bool True)])])
     (Obj 4 [(''a'', Num 2)])
   = Inr (negativeResult
     (Obj 1 [(''when'', Str ''a''), (''is'', Num 1), (''else'', Obj 2 [(''visible'', Bool True)])])) \<and>
   rprop (negativeResult
     (Obj 1 [(''when'', Str ''a''), (''is'', Num 1), (''else'', Obj 2 [(''visible'', Bool True)])]))
     ''visible'' = Bool True"
  by (simp add: leaf_eval rprop_def negativeResult_apply spread_def)


section \<open>Sequences\<close>

text \<open>
  A \<^verbatim>\<open>sequence\<close> node in closed form: the reducer starts from the node's negative
  result with \<^verbatim>\<open>sets: []\<close>, and after the first child only \<^verbatim>\<open>sets\<close>, \<^verbatim>\<open>visible\<close>
  and \<^verbatim>\<open>result\<close> remain. The first child that throws aborts the evaluation.
\<close>

lemma parseCondition_sequence_eq:
  assumes "node c" and "\<not> truthy (field c ''and'')" and "field c ''sequence'' = Arr a cs"
  shows "parseCondition get re c V =
     (case sequence_results (map (\<lambda>c. parseCondition get re c V) cs) of
        Inl e \<Rightarrow> Inl e
      | Inr rs \<Rightarrow>
          Inr (if cs = [] then (negativeResult c)(''sets'' \<mapsto> new_array [])
               else [''sets'' \<mapsto> new_array (concat (map set_of_result rs)),
                     ''visible'' \<mapsto> foldl js_or (rprop (negativeResult c) ''visible'') (map (\<lambda>r. rprop r ''visible'') rs),
                     ''result'' \<mapsto> foldl js_or (Bool False) (map (\<lambda>r. rprop r ''result'') rs)]))"
proof -
  let ?init = "(negativeResult c)(''sets'' \<mapsto> new_array [])"
  have i: "?init ''sets'' = Some (Arr 0 [])" by (simp add: new_array_def)
  have v: "rprop ?init ''visible'' = rprop (negativeResult c) ''visible''"
    and r: "rprop ?init ''result'' = Bool False"
    by (simp_all add: rprop_def negativeResult_apply)
  show ?thesis
    unfolding parseCondition_sequence [OF assms]
      reduce_seq_eq [of ?init 0 "[]" "\<lambda>c. parseCondition get re c V" cs, OF i] v r
    by (cases "sequence_results (map (\<lambda>c. parseCondition get re c V) cs)") simp_all
qed

lemma rprop_triple:
  "rprop [''sets'' \<mapsto> s, ''visible'' \<mapsto> v, ''result'' \<mapsto> f] ''sets'' = s"
  "rprop [''sets'' \<mapsto> s, ''visible'' \<mapsto> v, ''result'' \<mapsto> f] ''visible'' = v"
  "rprop [''sets'' \<mapsto> s, ''visible'' \<mapsto> v, ''result'' \<mapsto> f] ''result'' = f"
  by (simp_all add: rprop_def)

lemma rprop_empty_sequence:
  "rprop ((negativeResult c)(''sets'' \<mapsto> new_array [])) ''sets''
   = new_array (concat (map set_of_result []))"
  "rprop ((negativeResult c)(''sets'' \<mapsto> new_array [])) ''visible''
   = foldl js_or (rprop (negativeResult c) ''visible'') (map (\<lambda>r. rprop r ''visible'') [])"
  "rprop ((negativeResult c)(''sets'' \<mapsto> new_array [])) ''result''
   = Bool (\<exists>r \<in> set []. rprop r ''result'' = Bool True)"
  by (simp_all add: rprop_def negativeResult_apply)

text \<open>
  C4, as amended. For every \<^verbatim>\<open>sequence\<close> node and values map on which the children
  evaluate without an exception, evaluation processes the children in order and returns a
  result whose \<^verbatim>\<open>visible\<close> is the \<^verbatim>\<open>||\<close> of the \<^verbatim>\<open>visible\<close> of the node's own negative
  result (false unless the node's \<^verbatim>\<open>else\<close> overrides it) followed by the children's
  \<^verbatim>\<open>visible\<close> flags, whose \<^verbatim>\<open>result\<close> is the logical OR of the children's \<^verbatim>\<open>result\<close>
  flags, and whose \<^verbatim>\<open>sets\<close> list accumulates, in child order, exactly the truthy
  \<^verbatim>\<open>set\<close> values produced by the children (every \<^verbatim>\<open>set\<close> object, also an empty one).
  Without an \<^verbatim>\<open>else\<close> override of \<^verbatim>\<open>visible\<close> the node is visible iff some child is.
\<close>

theorem sequence_accumulates:
  assumes "node c" and "\<not> truthy (field c ''and'')" and "field c ''sequence'' = Arr a cs"
    and "sequence_results (map (\<lambda>c. parseCondition get re c V) cs) = Inr rs"
  shows "\<exists>res. parseCondition get re c V = Inr res \<and>
           rprop res ''sets'' = new_array (concat (map set_of_result rs)) \<and>
           rprop res ''visible'' =
             foldl js_or (rprop (negativeResult c) ''visible'') (map (\<lambda>r. rprop r ''visible'') rs) \<and>
           (truthy (rprop res ''visible'') \<longleftrightarrow>
              truthy (rprop (negativeResult c) ''visible'') \<or> (\<exists>r \<in> set rs. truthy (rprop r ''visible''))) \<and>
           (spread (field c ''else'') ''visible'' = None \<longrightarrow>
              (truthy (rprop res ''visible'') \<longleftrightarrow> (\<exists>r \<in> set rs. truthy (rprop r ''visible'')))) \<and>
           rprop res ''result'' = Bool (\<exists>r \<in> set rs. rprop r ''result'' = Bool True)"
proof -
  let ?vis = "foldl js_or (rprop (negativeResult c) ''visible'') (map (\<lambda>r. rprop r ''visible'') rs)"
  let ?flag = "Bool (\<exists>r \<in> set rs. rprop r ''result'' = Bool True)"
  let ?sets = "new_array (concat (map set_of_result rs))"
  have len: "length rs = length cs"
    using sequence_results_map(1) [OF assms(4)] .
  have fl: "foldl js_or (Bool False) (map (\<lambda>r. rprop r ''result'') rs) = ?flag"
    by (rule sequence_result_flag [OF children_flags [OF assms(4)]])
  obtain res where res: "parseCondition get re c V = Inr res"
    and s: "rprop res ''sets'' = ?sets" and v: "rprop res ''visible'' = ?vis"
    and f: "rprop res ''result'' = ?flag"
  proof (cases "cs = []")
    case True
    with len have e: "rs = []" by simp
    let ?res = "(negativeResult c)(''sets'' \<mapsto> new_array [])"
    have "parseCondition get re c V = Inr ?res"
      unfolding parseCondition_sequence_eq [OF assms(1-3)] assms(4) using True by simp
    moreover have "rprop ?res ''sets'' = ?sets" "rprop ?res ''visible'' = ?vis" "rprop ?res ''result'' = ?flag"
      unfolding e by (rule rprop_empty_sequence)+
    ultimately show ?thesis by (rule that)
  next
    case False
    let ?res = "[''sets'' \<mapsto> ?sets, ''visible'' \<mapsto> ?vis, ''result'' \<mapsto> ?flag]"
    have "parseCondition get re c V = Inr ?res"
      unfolding parseCondition_sequence_eq [OF assms(1-3)] assms(4) using False by (simp add: fl)
    moreover have "rprop ?res ''sets'' = ?sets" "rprop ?res ''visible'' = ?vis" "rprop ?res ''result'' = ?flag"
      by (rule rprop_triple)+
    ultimately show ?thesis by (rule that)
  qed
  have t: "truthy (rprop res ''visible'') \<longleftrightarrow>
              truthy (rprop (negativeResult c) ''visible'') \<or> (\<exists>r \<in> set rs. truthy (rprop r ''visible''))"
    unfolding v truthy_foldl_js_or by auto
  have d: "spread (field c ''else'') ''visible'' = None \<longrightarrow>
              (truthy (rprop res ''visible'') \<longleftrightarrow> (\<exists>r \<in> set rs. truthy (rprop r ''visible'')))"
    unfolding t using visible_default(2) [of c] by auto
  show ?thesis
  proof (intro exI [of _ res] conjI)
    show "parseCondition get re c V = Inr res" by (rule res)
    show "rprop res ''sets'' = ?sets" by (rule s)
    show "rprop res ''visible'' = ?vis" by (rule v)
    show "truthy (rprop res ''visible'') \<longleftrightarrow>
              truthy (rprop (negativeResult c) ''visible'') \<or> (\<exists>r \<in> set rs. truthy (rprop r ''visible''))"
      by (rule t)
    show "spread (field c ''else'') ''visible'' = None \<longrightarrow>
              (truthy (rprop res ''visible'') \<longleftrightarrow> (\<exists>r \<in> set rs. truthy (rprop r ''visible'')))"
      by (rule d)
    show "rprop res ''result'' = ?flag" by (rule f)
  qed
qed


text \<open>
  The example of the specification: two satisfied children, each with its own
  \<^verbatim>\<open>set\<close>, on \<^verbatim>\<open>a = 1, b = 2\<close>.
\<close>

theorem sequence_accumulates_witness:
  "\<exists>res. parseCondition get_key regexp_none
      (Obj 10 [(''sequence'', Arr 11
         [Obj 12 [(''when'', Str ''a''), (''is'', Num 1), (''then'', Obj 13 [(''set'', Obj 14 [(''x'', Num 1)])])],
          Obj 15 [(''when'', Str ''b''), (''is'', Num 2), (''then'', Obj 16 [(''set'', Obj 17 [(''y'', Num 2)])])]])])
      (Obj 18 [(''a'', Num 1), (''b'', Num 2)]) = Inr res \<and>
     rprop res ''sets'' = new_array [Obj 14 [(''x'', Num 1)], Obj 17 [(''y'', Num 2)]] \<and>
     rprop res ''visible'' = Bool True \<and>
     rprop res ''result'' = Bool True"
proof -
  let ?V = "Obj 18 [(''a'', Num 1), (''b'', Num 2)]"
  let ?p = "Obj 12 [(''when'', Str ''a''), (''is'', Num 1), (''then'', Obj 13 [(''set'', Obj 14 [(''x'', Num 1)])])]"
  let ?q = "Obj 15 [(''when'', Str ''b''), (''is'', Num 2), (''then'', Obj 16 [(''set'', Obj 17 [(''y'', Num 2)])])]"
  let ?c = "Obj 10 [(''sequence'', Arr 11 [?p, ?q])]"
  let ?rs = "[positiveResult ?p, positiveResult ?q]"
  have p: "parseCondition get_key regexp_none ?p ?V = Inr (positiveResult ?p)"
    by (simp add: leaf_eval)
  have q: "parseCondition get_key regexp_none ?q ?V = Inr (positiveResult ?q)"
    by (simp add: leaf_eval)
  have rs: "sequence_results (map (\<lambda>c. parseCondition get_key regexp_none c ?V) [?p, ?q]) = Inr ?rs"
    by (simp add: p q)
  have n: "node ?c" and a: "\<not> truthy (field ?c ''and'')"
    and sq: "field ?c ''sequence'' = Arr 11 [?p, ?q]"
    by (simp_all add: node_def)
  from sequence_accumulates [OF n a sq rs] obtain res
    where r: "parseCondition get_key regexp_none ?c ?V = Inr res"
      and s: "rprop res ''sets'' = new_array (concat (map set_of_result ?rs))"
      and v: "rprop res ''visible'' =
                foldl js_or (rprop (negativeResult ?c) ''visible'') (map (\<lambda>r. rprop r ''visible'') ?rs)"
      and f: "rprop res ''result'' = Bool (\<exists>r \<in> set ?rs. rprop r ''result'' = Bool True)"
    by blast
  have s': "concat (map set_of_result ?rs) = [Obj 14 [(''x'', Num 1)], Obj 17 [(''y'', Num 2)]]"
    by (simp add: set_of_result_def rprop_def positiveResult_apply spread_def)
  have v': "foldl js_or (rprop (negativeResult ?c) ''visible'') (map (\<lambda>r. rprop r ''visible'') ?rs) = Bool True"
    by (simp add: js_or_def rprop_def positiveResult_apply negativeResult_apply spread_def)
  have f': "(\<exists>r \<in> set ?rs. rprop r ''result'' = Bool True)"
    by (simp add: rprop_def positiveResult_apply)
  show ?thesis
    using r s v f unfolding s' v' using f' by (intro exI [of _ res]) simp
qed

text \<open>
  C4, as the specification states it, fails on a \<^verbatim>\<open>sequence\<close> node that carries
  \<^verbatim>\<open>else: { visible: true }\<close>: its only child is not visible, and the node is.
\<close>

theorem sequence_accumulates_counterexample:
  "parseCondition get_key regexp_none (Obj 12 [(''when'', Str ''a''), (''is'', Num 1)]) (Obj 18 [(''a'', Num 2)])
   = Inr (negativeResult (Obj 12 [(''when'', Str ''a''), (''is'', Num 1)])) \<and>
   rprop (negativeResult (Obj 12 [(''when'', Str ''a''), (''is'', Num 1)])) ''visible'' = Bool False \<and>
   parseCondition get_key regexp_none
     (Obj 10 [(''sequence'', Arr 11 [Obj 12 [(''when'', Str ''a''), (''is'', Num 1)]]),
              (''else'', Obj 13 [(''visible'', Bool True)])])
     (Obj 18 [(''a'', Num 2)])
   = Inr [''sets'' \<mapsto> new_array [], ''visible'' \<mapsto> Bool True, ''result'' \<mapsto> Bool False]"
proof -
  let ?V = "Obj 18 [(''a'', Num 2)]"
  let ?p = "Obj 12 [(''when'', Str ''a''), (''is'', Num 1)]"
  let ?c = "Obj 10 [(''sequence'', Arr 11 [?p]), (''else'', Obj 13 [(''visible'', Bool True)])]"
  have p: "parseCondition get_key regexp_none ?p ?V = Inr (negativeResult ?p)"
    by (simp add: leaf_eval)
  have v: "rprop (negativeResult ?p) ''visible'' = Bool False"
    "rprop (negativeResult ?p) ''result'' = Bool False"
    "rprop (negativeResult ?p) ''set'' = Undefined"
    by (simp_all add: rprop_def negativeResult_apply spread_def)
  have w: "rprop ((negativeResult ?c)(''sets'' \<mapsto> new_array [])) ''visible'' = Bool True"
    "rprop ((negativeResult ?c)(''sets'' \<mapsto> new_array [])) ''result'' = Bool False"
    "rprop ((negativeResult ?c)(''sets'' \<mapsto> new_array [])) ''sets'' = new_array []"
    by (simp_all add: rprop_def negativeResult_apply spread_def)
  have st: "seq_step ((negativeResult ?c)(''sets'' \<mapsto> new_array [])) (negativeResult ?p)
        = Inr [''sets'' \<mapsto> new_array [], ''visible'' \<mapsto> Bool True, ''result'' \<mapsto> Bool False]"
    unfolding seq_step_def v w by (simp add: new_array_def js_or_def)
  have c: "parseCondition get_key regexp_none ?c ?V
        = Inr [''sets'' \<mapsto> new_array [], ''visible'' \<mapsto> Bool True, ''result'' \<mapsto> Bool False]"
    by (simp add: parseCondition_sequence node_def p st)
  from p v(1) c show ?thesis by simp
qed

section \<open>Satisfaction and result shaping\<close>

text \<open>Satisfaction, branch by branch, and the malformed \<^verbatim>\<open>and\<close> and \<^verbatim>\<open>or\<close> tags.\<close>

lemma spec_satisfied_array:
  "spec_satisfied get re (Arr a cs) V = list_all (\<lambda>x. spec_satisfied get re x V) cs"
  by (subst spec_satisfied.simps) simp

lemma spec_satisfied_and:
  "node c \<Longrightarrow> field c ''and'' = Arr a cs \<Longrightarrow>
   spec_satisfied get re c V = list_all (\<lambda>x. spec_satisfied get re x V) cs"
  by (subst spec_satisfied.simps) (auto simp: node_def split: jsval.splits)

lemma spec_satisfied_sequence:
  "node c \<Longrightarrow> \<not> truthy (field c ''and'') \<Longrightarrow> field c ''sequence'' = Arr a cs \<Longrightarrow>
   spec_satisfied get re c V = list_ex (\<lambda>x. spec_satisfied get re x V) cs"
  by (subst spec_satisfied.simps) (auto simp: node_def split: jsval.splits)

lemma spec_satisfied_or:
  "node c \<Longrightarrow> \<not> truthy (field c ''and'') \<Longrightarrow> \<not> truthy (field c ''sequence'') \<Longrightarrow>
   field c ''or'' = Arr a cs \<Longrightarrow>
   spec_satisfied get re c V = list_ex (\<lambda>x. spec_satisfied get re x V) cs"
  by (subst spec_satisfied.simps) (auto simp: node_def split: jsval.splits)

lemma spec_satisfied_not:
  "node c \<Longrightarrow> \<not> truthy (field c ''and'') \<Longrightarrow> \<not> truthy (field c ''sequence'') \<Longrightarrow>
   \<not> truthy (field c ''or'') \<Longrightarrow> truthy (field c ''not'') \<Longrightarrow>
   spec_satisfied get re c V = (\<not> spec_satisfied get re (field c ''not'') V)"
  by (subst spec_satisfied.simps) (auto simp: node_def split: jsval.splits)

lemma spec_satisfied_leaf:
  "leaf_node c \<Longrightarrow>
   spec_satisfied get re c V =
     (case field c ''when'' of
        Str w \<Rightarrow> fieldCondition re (get V (Str w)) c = Inr True
      | Arr a ws \<Rightarrow> list_ex (\<lambda>w. fieldCondition re (get V w) c = Inr True) ws
      | _ \<Rightarrow> False)"
  by (subst spec_satisfied.simps) (auto simp: leaf_node_def node_def split: jsval.splits)

lemma parseCondition_and_bad:
  "node c \<Longrightarrow> truthy (field c ''and'') \<Longrightarrow> \<not> is_array (field c ''and'') \<Longrightarrow>
   parseCondition get re c V = Inl TypeError"
  by (subst parseCondition.simps) (auto simp: node_def split: jsval.splits)

lemma parseCondition_or_bad:
  "node c \<Longrightarrow> \<not> truthy (field c ''and'') \<Longrightarrow> \<not> truthy (field c ''sequence'') \<Longrightarrow>
   truthy (field c ''or'') \<Longrightarrow> \<not> is_array (field c ''or'') \<Longrightarrow>
   parseCondition get re c V = Inl TypeError"
  by (subst parseCondition.simps) (auto simp: node_def split: jsval.splits)

lemma is_array_obtain: "truthy x \<Longrightarrow> is_array x \<Longrightarrow> \<exists>a cs. x = Arr a cs"
  by (cases x) auto


lemma children_result_map:
  "map f cs = map Inr rs \<Longrightarrow>
   (\<And>x r. x \<in> set cs \<Longrightarrow> f x = Inr r \<Longrightarrow> rprop r ''result'' = Bool (P x)) \<Longrightarrow>
   map (\<lambda>r. rprop r ''result'') rs = map (\<lambda>x. Bool (P x)) cs"
proof (induction cs arbitrary: rs)
  case Nil
  then show ?case by simp
next
  case (Cons x xs)
  from Cons.prems(1) obtain r rs' where rs: "rs = r # rs'" and fx: "f x = Inr r"
    and tl: "map f xs = map Inr rs'"
    by (cases rs) auto
  have hd: "rprop r ''result'' = Bool (P x)"
    by (rule Cons.prems(2) [OF _ fx]) simp
  have "map (\<lambda>r. rprop r ''result'') rs' = map (\<lambda>x. Bool (P x)) xs"
    by (rule Cons.IH [OF tl]) (rule Cons.prems(2), simp_all)
  with hd rs show ?case by simp
qed

lemma children_satisfied:
  assumes rs: "sequence_results (map f cs) = Inr rs"
    and ih: "\<And>x r. x \<in> set cs \<Longrightarrow> f x = Inr r \<Longrightarrow> rprop r ''result'' = Bool (P x)"
  shows "(\<forall>r \<in> set rs. rprop r ''result'' = Bool True) \<longleftrightarrow> list_all P cs"
    and "(\<exists>r \<in> set rs. rprop r ''result'' = Bool True) \<longleftrightarrow> list_ex P cs"
proof -
  have m: "map (\<lambda>r. rprop r ''result'') rs = map (\<lambda>x. Bool (P x)) cs"
    by (rule children_result_map [OF sequence_results_Inr_D [OF rs] ih])
  have "(\<forall>r \<in> set rs. rprop r ''result'' = Bool True)
        \<longleftrightarrow> (\<forall>v \<in> set (map (\<lambda>r. rprop r ''result'') rs). v = Bool True)"
    by simp
  also have "\<dots> \<longleftrightarrow> list_all P cs"
    unfolding m by (simp add: list_all_iff)
  finally show "(\<forall>r \<in> set rs. rprop r ''result'' = Bool True) \<longleftrightarrow> list_all P cs" .
  have "(\<exists>r \<in> set rs. rprop r ''result'' = Bool True)
        \<longleftrightarrow> (\<exists>v \<in> set (map (\<lambda>r. rprop r ''result'') rs). v = Bool True)"
    by (simp add: image_iff) metis
  also have "\<dots> \<longleftrightarrow> list_ex P cs"
    unfolding m by (auto simp: list_ex_iff)
  finally show "(\<exists>r \<in> set rs. rprop r ''result'' = Bool True) \<longleftrightarrow> list_ex P cs" .
qed


lemma result_is_satisfied:
  "parseCondition get re c V = Inr r \<Longrightarrow> rprop r ''result'' = Bool (spec_satisfied get re c V)"
proof (induction "size c" arbitrary: c r rule: less_induct)
  case less
  let ?f = "\<lambda>x. parseCondition get re x V"
  let ?P = "\<lambda>x. spec_satisfied get re x V"
  have pos: "rprop (positiveResult c) ''result'' = Bool True"
    and neg: "rprop (negativeResult c) ''result'' = Bool False"
    by (simp_all add: rprop_def positiveResult_apply negativeResult_apply)
  have gate: "rprop (if b then positiveResult c else negativeResult c) ''result'' = Bool b" for b
    using pos neg by simp
  have nn: "c \<noteq> Undefined" "c \<noteq> Null"
    using less.prems by (auto simp: parseCondition_nullish)
  show ?case
  proof (cases "is_array c")
    case True
    then obtain a cs where c: "c = Arr a cs" by (cases c) auto
    from less.prems obtain rs where rs: "sequence_results (map ?f cs) = Inr rs"
      unfolding c parseCondition_array by (cases "sequence_results (map ?f cs)") auto
    have ih: "\<And>x r. x \<in> set cs \<Longrightarrow> ?f x = Inr r \<Longrightarrow> rprop r ''result'' = Bool (?P x)"
      using less.hyps size_arr_elem [of _ cs a] unfolding c by blast
    have "r = (if \<forall>r \<in> set rs. rprop r ''result'' = Bool True then positiveResult c else negativeResult c)"
      using less.prems gate_all [OF children_flags [OF rs]]
      unfolding c parseCondition_array rs by simp
    then have "rprop r ''result'' = Bool (\<forall>r \<in> set rs. rprop r ''result'' = Bool True)"
      using gate by simp
    moreover have "(\<forall>r \<in> set rs. rprop r ''result'' = Bool True) \<longleftrightarrow> list_all ?P cs"
      by (rule children_satisfied(1) [OF rs ih])
    ultimately show ?thesis
      by (simp add: c spec_satisfied_array)
  next
    case False
    with nn have n: "node c" by (simp add: node_def)
    show ?thesis
    proof (cases "truthy (field c ''and'')")
      case True
      then obtain a cs where f: "field c ''and'' = Arr a cs"
        using parseCondition_and_bad [OF n True, of get re V] less.prems is_array_obtain [OF True]
        by (cases "is_array (field c ''and'')") auto
      from less.prems obtain rs where rs: "sequence_results (map ?f cs) = Inr rs"
        unfolding parseCondition_and [OF n f] by (cases "sequence_results (map ?f cs)") auto
      have ih: "\<And>x r. x \<in> set cs \<Longrightarrow> ?f x = Inr r \<Longrightarrow> rprop r ''result'' = Bool (?P x)"
        using less.hyps size_field_elem [OF f] by blast
      have "r = (if \<forall>r \<in> set rs. rprop r ''result'' = Bool True then positiveResult c else negativeResult c)"
        using less.prems gate_all [OF children_flags [OF rs]]
        unfolding parseCondition_and [OF n f] rs by simp
      then have "rprop r ''result'' = Bool (\<forall>r \<in> set rs. rprop r ''result'' = Bool True)"
        using gate by simp
      moreover have "(\<forall>r \<in> set rs. rprop r ''result'' = Bool True) \<longleftrightarrow> list_all ?P cs"
        by (rule children_satisfied(1) [OF rs ih])
      ultimately show ?thesis
        by (simp add: spec_satisfied_and [OF n f])
    next
      case na: False
      show ?thesis
      proof (cases "truthy (field c ''sequence'')")
        case True
        then obtain a cs where f: "field c ''sequence'' = Arr a cs"
          using parseCondition_sequence_bad [OF n na True, of get re V] less.prems is_array_obtain [OF True]
          by (cases "is_array (field c ''sequence'')") auto
        note eq = parseCondition_sequence_eq [OF n na f, of get re V]
        from less.prems obtain rs where rs: "sequence_results (map ?f cs) = Inr rs"
          unfolding eq by (cases "sequence_results (map ?f cs)") auto
        have ih: "\<And>x r. x \<in> set cs \<Longrightarrow> ?f x = Inr r \<Longrightarrow> rprop r ''result'' = Bool (?P x)"
          using less.hyps size_field_elem [OF f] by blast
        have fl: "foldl js_or (Bool False) (map (\<lambda>r. rprop r ''result'') rs)
                  = Bool (\<exists>r \<in> set rs. rprop r ''result'' = Bool True)"
          by (rule sequence_result_flag [OF children_flags [OF rs]])
        have len: "length rs = length cs"
          using sequence_results_map(1) [OF rs] .
        have "rprop r ''result'' = Bool (\<exists>r \<in> set rs. rprop r ''result'' = Bool True)"
        proof (cases "cs = []")
          case True
          with len have "rs = []" by simp
          moreover from less.prems have "r = (negativeResult c)(''sets'' \<mapsto> new_array [])"
            unfolding eq rs using True by simp
          ultimately show ?thesis
            using rprop_empty_sequence(3) [of c] by simp
        next
          case False
          from less.prems have "r = [''sets'' \<mapsto> new_array (concat (map set_of_result rs)),
                     ''visible'' \<mapsto> foldl js_or (rprop (negativeResult c) ''visible'') (map (\<lambda>r. rprop r ''visible'') rs),
                     ''result'' \<mapsto> Bool (\<exists>r \<in> set rs. rprop r ''result'' = Bool True)]"
            unfolding eq rs using False by (simp add: fl)
          then show ?thesis
            using rprop_triple(3) by simp
        qed
        moreover have "(\<exists>r \<in> set rs. rprop r ''result'' = Bool True) \<longleftrightarrow> list_ex ?P cs"
          by (rule children_satisfied(2) [OF rs ih])
        ultimately show ?thesis
          by (simp add: spec_satisfied_sequence [OF n na f])
      next
        case ns: False
        show ?thesis
        proof (cases "truthy (field c ''or'')")
          case True
          then obtain a cs where f: "field c ''or'' = Arr a cs"
            using parseCondition_or_bad [OF n na ns True, of get re V] less.prems is_array_obtain [OF True]
            by (cases "is_array (field c ''or'')") auto
          from less.prems obtain rs where rs: "sequence_results (map ?f cs) = Inr rs"
            unfolding parseCondition_or [OF n na ns f] by (cases "sequence_results (map ?f cs)") auto
          have ih: "\<And>x r. x \<in> set cs \<Longrightarrow> ?f x = Inr r \<Longrightarrow> rprop r ''result'' = Bool (?P x)"
            using less.hyps size_field_elem [OF f] by blast
          have "r = (if \<exists>r \<in> set rs. rprop r ''result'' = Bool True then positiveResult c else negativeResult c)"
            using less.prems unfolding parseCondition_or [OF n na ns f] rs by (simp add: gate_any)
          then have "rprop r ''result'' = Bool (\<exists>r \<in> set rs. rprop r ''result'' = Bool True)"
            using gate by simp
          moreover have "(\<exists>r \<in> set rs. rprop r ''result'' = Bool True) \<longleftrightarrow> list_ex ?P cs"
            by (rule children_satisfied(2) [OF rs ih])
          ultimately show ?thesis
            by (simp add: spec_satisfied_or [OF n na ns f])
        next
          case no: False
          show ?thesis
          proof (cases "truthy (field c ''not'')")
            case True
            from less.prems obtain r' where r': "?f (field c ''not'') = Inr r'"
              unfolding parseCondition_not [OF n na ns no True]
              by (cases "?f (field c ''not'')") auto
            have ih: "rprop r' ''result'' = Bool (?P (field c ''not''))"
              using less.hyps [OF size_field_truthy [OF True] r'] .
            have "r = (if \<not> truthy (rprop r' ''result'') then positiveResult c else negativeResult c)"
              using less.prems unfolding parseCondition_not [OF n na ns no True] r' by simp
            then have "rprop r ''result'' = Bool (\<not> truthy (rprop r' ''result''))"
              using gate by simp
            with ih show ?thesis
              by (simp add: spec_satisfied_not [OF n na ns no True])
          next
            case nt: False
            have l: "leaf_node c"
              using n na ns no nt by (simp add: leaf_node_def)
            show ?thesis
            proof (cases "field c ''when''")
              case (Str w)
              from less.prems obtain b where b: "fieldCondition re (get V (Str w)) c = Inr b"
                unfolding parseCondition_when_string [OF l Str]
                by (cases "fieldCondition re (get V (Str w)) c") auto
              have "r = (if b then positiveResult c else negativeResult c)"
                using less.prems unfolding parseCondition_when_string [OF l Str] b by simp
              then have "rprop r ''result'' = Bool b" using gate by simp
              then show ?thesis
                by (simp add: spec_satisfied_leaf [OF l] Str b)
            next
              case (Arr a ws)
              let ?g = "\<lambda>w. fieldCondition re (get V w) c"
              from less.prems obtain bs where bs: "sequence_results (map ?g ws) = Inr bs"
                unfolding parseCondition_when_array [OF l Arr]
                by (cases "sequence_results (map ?g ws)") auto
              have "r = (if list_ex (\<lambda>b. b) bs then positiveResult c else negativeResult c)"
                using less.prems unfolding parseCondition_when_array [OF l Arr] bs by simp
              then have "rprop r ''result'' = Bool (list_ex (\<lambda>b. b) bs)" using gate by simp
              then show ?thesis
                using any_field [OF bs]
                by (simp add: spec_satisfied_leaf [OF l] Arr list_ex_iff)
            qed (insert less.prems neg n na ns no nt,
                 auto simp: parseCondition_leaf spec_satisfied_leaf [OF l])
          qed
        qed
      qed
    qed
  qed
qed


text \<open>
  C1, as amended. Every node other than a \<^verbatim>\<open>sequence\<close> node that evaluates without an
  exception evaluates to \<^verbatim>\<open>{ visible: true, ...then, result: true }\<close> when it is
  satisfied and to \<^verbatim>\<open>{ visible: false, ...else, result: false }\<close> when it is not. The
  overrides (and the \<^verbatim>\<open>set\<close> map they carry) take precedence over the default
  \<^verbatim>\<open>visible\<close>, but never over \<^verbatim>\<open>result\<close>, which is written after the spread: the
  \<^verbatim>\<open>result\<close> flag tells the two objects apart.
\<close>

theorem result_shaping:
  assumes "parseCondition get re c V = Inr r"
    and "is_array c \<or> truthy (field c ''and'') \<or> \<not> truthy (field c ''sequence'')"
  shows "r = (if spec_satisfied get re c V then positiveResult c else negativeResult c) \<and>
         (r = positiveResult c \<longleftrightarrow> r ''result'' = Some (Bool True)) \<and>
         (r = negativeResult c \<longleftrightarrow> r ''result'' = Some (Bool False)) \<and>
         (\<forall>k. positiveResult c k =
            (if k = ''result'' then Some (Bool True)
             else case spread (field c ''then'') k of
                    Some v \<Rightarrow> Some v
                  | None \<Rightarrow> if k = ''visible'' then Some (Bool True) else None)) \<and>
         (\<forall>k. negativeResult c k =
            (if k = ''result'' then Some (Bool False)
             else case spread (field c ''else'') k of
                    Some v \<Rightarrow> Some v
                  | None \<Rightarrow> if k = ''visible'' then Some (Bool False) else None))"
proof -
  have shape: "r = positiveResult c \<or> r = negativeResult c"
    by (rule parseCondition_shape [OF assms])
  have flag: "rprop r ''result'' = Bool (spec_satisfied get re c V)"
    by (rule result_is_satisfied [OF assms(1)])
  have pos: "rprop (positiveResult c) ''result'' = Bool True"
    and neg: "rprop (negativeResult c) ''result'' = Bool False"
    by (simp_all add: rprop_def positiveResult_apply negativeResult_apply)
  have sat: "r = (if spec_satisfied get re c V then positiveResult c else negativeResult c)"
    using shape flag pos neg by auto
  show ?thesis
    using sat shape pos_neq_neg [of c]
    by (auto simp: positiveResult_apply negativeResult_apply)
qed

text \<open>
  A leaf whose \<^verbatim>\<open>then\<close> hides the field, sets a value and tries to override
  \<^verbatim>\<open>result\<close>: satisfied on \<^verbatim>\<open>a = 1\<close>, not satisfied on \<^verbatim>\<open>a = 2\<close>.
\<close>

theorem result_shaping_witness:
  "spec_satisfied get_key regexp_none
     (Obj 70 [(''when'', Str ''a''), (''is'', Num 1),
             (''then'', Obj 71 [(''visible'', Bool False), (''result'', Bool False), (''set'', Obj 72 [(''x'', Num 1)])])])
     (Obj 73 [(''a'', Num 1)]) \<and>
   parseCondition get_key regexp_none
     (Obj 70 [(''when'', Str ''a''), (''is'', Num 1),
             (''then'', Obj 71 [(''visible'', Bool False), (''result'', Bool False), (''set'', Obj 72 [(''x'', Num 1)])])])
     (Obj 73 [(''a'', Num 1)])
   = Inr [''visible'' \<mapsto> Bool False, ''set'' \<mapsto> Obj 72 [(''x'', Num 1)], ''result'' \<mapsto> Bool True] \<and>
   \<not> spec_satisfied get_key regexp_none
     (Obj 70 [(''when'', Str ''a''), (''is'', Num 1),
             (''then'', Obj 71 [(''visible'', Bool False), (''result'', Bool False), (''set'', Obj 72 [(''x'', Num 1)])])])
     (Obj 73 [(''a'', Num 2)]) \<and>
   parseCondition get_key regexp_none
     (Obj 70 [(''when'', Str ''a''), (''is'', Num 1),
             (''then'', Obj 71 [(''visible'', Bool False), (''result'', Bool False), (''set'', Obj 72 [(''x'', Num 1)])])])
     (Obj 73 [(''a'', Num 2)])
   = Inr [''visible'' \<mapsto> Bool False, ''result'' \<mapsto> Bool False]"
proof -
  let ?c = "Obj 70 [(''when'', Str ''a''), (''is'', Num 1),
             (''then'', Obj 71 [(''visible'', Bool False), (''result'', Bool False), (''set'', Obj 72 [(''x'', Num 1)])])]"
  let ?V = "Obj 73 [(''a'', Num 1)]"
  let ?W = "Obj 73 [(''a'', Num 2)]"
  have l: "leaf_node ?c" by (simp add: leaf_node_def node_def)
  have ns: "is_array ?c \<or> truthy (field ?c ''and'') \<or> \<not> truthy (field ?c ''sequence'')"
    by simp
  have sV: "spec_satisfied get_key regexp_none ?c ?V"
    unfolding spec_satisfied_leaf [OF l]
    by (simp add: fieldCondition_def get_key_def strict_equals_def)
  have sW: "\<not> spec_satisfied get_key regexp_none ?c ?W"
    unfolding spec_satisfied_leaf [OF l]
    by (simp add: fieldCondition_def get_key_def strict_equals_def)
  obtain r where r: "parseCondition get_key regexp_none ?c ?V = Inr r"
    by (simp add: leaf_eval)
  obtain q where q: "parseCondition get_key regexp_none ?c ?W = Inr q"
    by (simp add: leaf_eval)
  have pk: "\<forall>k. positiveResult ?c k =
            (if k = ''result'' then Some (Bool True)
             else case spread (field ?c ''then'') k of
                    Some v \<Rightarrow> Some v
                  | None \<Rightarrow> if k = ''visible'' then Some (Bool True) else None)"
    and rp: "r = positiveResult ?c"
    using result_shaping [OF r ns] sV by simp_all
  have nk: "\<forall>k. negativeResult ?c k =
            (if k = ''result'' then Some (Bool False)
             else case spread (field ?c ''else'') k of
                    Some v \<Rightarrow> Some v
                  | None \<Rightarrow> if k = ''visible'' then Some (Bool False) else None)"
    and qn: "q = negativeResult ?c"
    using result_shaping [OF q ns] sW by simp_all
  have "positiveResult ?c = [''visible'' \<mapsto> Bool False, ''set'' \<mapsto> Obj 72 [(''x'', Num 1)], ''result'' \<mapsto> Bool True]"
    using pk by (auto simp: spread_def fun_eq_iff)
  moreover have "negativeResult ?c = [''visible'' \<mapsto> Bool False, ''result'' \<mapsto> Bool False]"
    using nk by (auto simp: spread_def fun_eq_iff)
  ultimately show ?thesis
    using sV sW r q rp qn by simp
qed

text \<open>
  C1, as the specification states it, fails on a satisfied leaf whose \<^verbatim>\<open>then\<close> carries a
  \<^verbatim>\<open>result\<close> property: the source keeps \<^verbatim>\<open>result: true\<close>, the specification's object
  would have \<^verbatim>\<open>result: false\<close>.
\<close>

theorem result_shaping_counterexample:
  "fieldCondition regexp_none (get_key (Obj 4 [(''a'', Num 1)]) (Str ''a''))
     (Obj 1 [(''when'', Str ''a''), (''is'', Num 1), (''then'', Obj 2 [(''result'', Bool False)])]) = Inr True \<and>
   parseCondition get_key regexp_none
     (Obj 1 [(''when'', Str ''a''), (''is'', Num 1), (''then'', Obj 2 [(''result'', Bool False)])])
     (Obj 4 [(''a'', Num 1)])
   \<noteq> Inr (spec_positiveResult
      (Obj 1 [(''when'', Str ''a''), (''is'', Num 1), (''then'', Obj 2 [(''result'', Bool False)])]))"
proof -
  let ?c = "Obj 1 [(''when'', Str ''a''), (''is'', Num 1), (''then'', Obj 2 [(''result'', Bool False)])]"
  let ?V = "Obj 4 [(''a'', Num 1)]"
  have f: "fieldCondition regexp_none (get_key ?V (Str ''a'')) ?c = Inr True"
    by (simp add: fieldCondition_def get_key_def strict_equals_def)
  have p: "parseCondition get_key regexp_none ?c ?V = Inr (positiveResult ?c)"
    by (simp add: parseCondition_leaf node_def fieldCondition_def get_key_def strict_equals_def)
  have "positiveResult ?c ''result'' \<noteq> spec_positiveResult ?c ''result''"
    by (simp add: positiveResult_apply spec_positiveResult_def spread_def)
  then have "positiveResult ?c \<noteq> spec_positiveResult ?c" by metis
  with f p show ?thesis by simp
qed

section \<open>The runtime: remembered sets, reset and batches\<close>

text \<open>Deep equality on constructors, and its reflexivity.\<close>

lemma isEqual_Arr: "isEqual (Arr a xs) (Arr b ys) = list_all2 isEqual xs ys"
  by (subst isEqual.simps) simp

lemma isEqual_Obj:
  "isEqual (Obj a fs) (Obj b gs) =
     (set (map fst fs) = set (map fst gs) \<and>
      list_all (\<lambda>k. isEqual (field (Obj a fs) k) (field (Obj b gs) k)) (map fst fs))"
  by (subst isEqual.simps) simp

lemma isEqual_refl: "isEqual x x"
proof (induction x)
  case (Arr a xs)
  then show ?case by (simp add: isEqual_Arr list_all2_same)
next
  case (Obj a fs)
  have "isEqual (field (Obj a fs) k) (field (Obj a fs) k)" if "k \<in> fst ` set fs" for k
  proof -
    from that obtain v where v: "map_of fs k = Some v"
      by (cases "map_of fs k") (auto simp: map_of_eq_None_iff)
    then have "(k, v) \<in> set fs" by (rule map_of_SomeD)
    then have "isEqual v v" using Obj.IH by force
    with v show ?thesis by simp
  qed
  then show ?case by (simp add: isEqual_Obj list_all_iff)
qed (simp_all add: isEqual.simps)

lemma schedule_initial:
  "initial state \<Longrightarrow> schedule state xs i = (map entries (filter truthy xs), None)"
  by (induction xs arbitrary: i) auto

lemma sets_effect_commit:
  assumes "dispatches (sets_effect setters state) \<noteq> []"
  shows "dispatches (sets_effect setters state) = [\<lparr>atype = ''rememberSets'', asets = setters\<rparr>]"
    and "truthy setters \<and> length_positive setters \<and> (initial state \<or> \<not> isEqual setters (sets state))"
  using assms by (auto simp: sets_effect_def split: if_splits jsval.splits prod.splits option.splits)

lemma sets_effect_timers:
  assumes "timers (sets_effect setters state) \<noteq> []"
  shows "truthy setters \<and> length_positive setters \<and> (initial state \<or> \<not> isEqual setters (sets state))"
  using assms by (auto simp: sets_effect_def split: if_splits jsval.splits prod.splits option.splits)

lemma sets_effect_remembered:
  "\<not> initial state \<Longrightarrow> sets state = setters \<Longrightarrow> sets_effect setters state = no_effects"
  by (simp add: sets_effect_def no_effects_def isEqual_refl)

lemma apply_remember:
  "apply_dispatches state \<lparr>timers = ts, dispatches = [\<lparr>atype = ''rememberSets'', asets = s\<rparr>], thrown = e\<rparr>
   = state\<lparr>initial := False, sets := s\<rparr>"
  by (simp add: apply_dispatches_def reducer_def)

lemma changed_from_Cons:
  "changed_from i ys (x # xs) =
     (if truthy x \<and> \<not> isEqual x (nth_or_undefined ys i) then [x] else []) @ changed_from (Suc i) ys xs"
proof -
  have u: "[i..<i + length (x # xs)] = i # [Suc i..<Suc i + length xs]"
    using upt_conv_Cons [of i "i + length (x # xs)"] by simp
  show ?thesis
    unfolding changed_from_def u by (simp del: upt_Suc)
qed

lemma schedule_remembered:
  "\<not> initial state \<Longrightarrow> sets state = Arr b ys \<Longrightarrow>
   schedule state xs i = (map entries (changed_from i ys xs), None)"
proof (induction xs arbitrary: i)
  case Nil
  then show ?case by (simp add: changed_from_def)
next
  case (Cons x xs)
  then show ?case
    by (simp add: changed_from_Cons nth_or_undefined_def)
qed

lemma isEqual_prim:
  "isEqual Undefined y = (Undefined = y)"
  "isEqual Null y = (Null = y)"
  "isEqual (Bool p) y = (Bool p = y)"
  "isEqual (Num n) y = (Num n = y)"
  "isEqual (Str t) y = (Str t = y)"
  by (subst isEqual.simps, simp)+

lemma age_example:
  "parseCondition get_key regexp_none
     (Obj 40 [(''when'', Str ''age''), (''isEmpty'', Bool True),
              (''then'', Obj 41 [(''set'', Obj 42 [(''category'', Str ''unknown'')])])])
     (Obj 43 [])
   = Inr (positiveResult
     (Obj 40 [(''when'', Str ''age''), (''isEmpty'', Bool True),
              (''then'', Obj 41 [(''set'', Obj 42 [(''category'', Str ''unknown'')])])]))"
  "setters_of (positiveResult
     (Obj 40 [(''when'', Str ''age''), (''isEmpty'', Bool True),
              (''then'', Obj 41 [(''set'', Obj 42 [(''category'', Str ''unknown'')])])]))
   = Arr 0 [Obj 42 [(''category'', Str ''unknown'')]]"
  by (simp_all add: leaf_eval isEmptyValue_def setters_of_def rprop_def positiveResult_apply
      spread_def new_array_def)

text \<open>
  C5. When a pass has committed (its effect dispatched \<^verbatim>\<open>rememberSets\<close>), the state is
  no longer initial and remembers the candidate list; re-evaluating the same expression
  on the same values yields a candidate list that is deep-equal to the remembered one, and
  the next pass schedules no write and dispatches nothing. In general a candidate list is
  applied (a write scheduled or the list remembered) only when it is non-empty and the
  state is initial or the list is not deep-equal to the remembered one.
\<close>

theorem remembered_sets_suppress_writes:
  "(render_pass get re c V state = Inr (eff, state') \<and> dispatches eff \<noteq> [] \<longrightarrow>
      \<not> initial state' \<and>
      (\<exists>r. parseCondition get re c V = Inr r \<and> sets state' = setters_of r \<and>
           isEqual (setters_of r) (sets state')) \<and>
      render_pass get re c V state' = Inr (no_effects, state')) \<and>
   (timers (sets_effect setters state) \<noteq> [] \<or> dispatches (sets_effect setters state) \<noteq> [] \<longrightarrow>
      truthy setters \<and> length_positive setters \<and>
      (initial state \<or> \<not> isEqual setters (sets state)))"
proof -
  have pass: "render_pass get re c V state = Inr (eff, state') \<and> dispatches eff \<noteq> [] \<longrightarrow>
      \<not> initial state' \<and>
      (\<exists>r. parseCondition get re c V = Inr r \<and> sets state' = setters_of r \<and>
           isEqual (setters_of r) (sets state')) \<and>
      render_pass get re c V state' = Inr (no_effects, state')"
  proof
    assume h: "render_pass get re c V state = Inr (eff, state') \<and> dispatches eff \<noteq> []"
    then obtain r where r: "parseCondition get re c V = Inr r"
      and e: "eff = sets_effect (setters_of r) state"
      and s: "state' = apply_dispatches state eff"
      by (auto simp: render_pass_def Let_def split: sum.splits)
    from h e have d: "dispatches eff = [\<lparr>atype = ''rememberSets'', asets = setters_of r\<rparr>]"
      using sets_effect_commit(1) by blast
    have s': "state' = state\<lparr>initial := False, sets := setters_of r\<rparr>"
      unfolding s by (simp add: apply_dispatches_def d reducer_def)
    then have i: "\<not> initial state'" and m: "sets state' = setters_of r" by simp_all
    have n: "sets_effect (setters_of r) state' = no_effects"
      by (rule sets_effect_remembered [OF i m])
    have "render_pass get re c V state' = Inr (no_effects, state')"
      by (simp add: render_pass_def r n apply_dispatches_def no_effects_def)
    with i m r show "\<not> initial state' \<and>
      (\<exists>r. parseCondition get re c V = Inr r \<and> sets state' = setters_of r \<and>
           isEqual (setters_of r) (sets state')) \<and>
      render_pass get re c V state' = Inr (no_effects, state')"
      by (simp add: isEqual_refl)
  qed
  have policy: "timers (sets_effect setters state) \<noteq> [] \<or> dispatches (sets_effect setters state) \<noteq> [] \<longrightarrow>
      truthy setters \<and> length_positive setters \<and>
      (initial state \<or> \<not> isEqual setters (sets state))"
    using sets_effect_commit(2) sets_effect_timers by blast
  from pass policy show ?thesis by (rule conjI)
qed


text \<open>
  The example of the specification, \<^verbatim>\<open>{ when: 'age', isEmpty: true, then: { set:
  { category: 'unknown' } } }\<close> on \<^verbatim>\<open>{}\<close>: the first pass writes \<^verbatim>\<open>category\<close> once,
  the second pass does nothing.
\<close>

theorem remembered_sets_suppress_writes_witness:
  "render_pass get_key regexp_none
     (Obj 40 [(''when'', Str ''age''), (''isEmpty'', Bool True),
              (''then'', Obj 41 [(''set'', Obj 42 [(''category'', Str ''unknown'')])])])
     (Obj 43 []) init_state
   = Inr (\<lparr>timers = [[(''category'', Str ''unknown'')]],
            dispatches = [\<lparr>atype = ''rememberSets'', asets = Arr 0 [Obj 42 [(''category'', Str ''unknown'')]]\<rparr>],
            thrown = None\<rparr>,
          \<lparr>initial = False, sets = Arr 0 [Obj 42 [(''category'', Str ''unknown'')]]\<rparr>) \<and>
   render_pass get_key regexp_none
     (Obj 40 [(''when'', Str ''age''), (''isEmpty'', Bool True),
              (''then'', Obj 41 [(''set'', Obj 42 [(''category'', Str ''unknown'')])])])
     (Obj 43 []) \<lparr>initial = False, sets = Arr 0 [Obj 42 [(''category'', Str ''unknown'')]]\<rparr>
   = Inr (no_effects, \<lparr>initial = False, sets = Arr 0 [Obj 42 [(''category'', Str ''unknown'')]]\<rparr>) \<and>
   timers (sets_effect (Arr 0 [Obj 42 [(''category'', Str ''unknown'')]]) init_state) \<noteq> [] \<and>
   length_positive (Arr 0 [Obj 42 [(''category'', Str ''unknown'')]]) \<and>
   initial init_state"
proof -
  let ?c = "Obj 40 [(''when'', Str ''age''), (''isEmpty'', Bool True),
              (''then'', Obj 41 [(''set'', Obj 42 [(''category'', Str ''unknown'')])])]"
  let ?s = "Arr 0 [Obj 42 [(''category'', Str ''unknown'')]]"
  let ?eff = "\<lparr>timers = [[(''category'', Str ''unknown'')]],
            dispatches = [\<lparr>atype = ''rememberSets'', asets = ?s\<rparr>], thrown = None\<rparr>"
  let ?st = "\<lparr>initial = False, sets = ?s\<rparr>"
  have e: "sets_effect ?s init_state = ?eff"
    by (simp add: sets_effect_def init_state_def)
  have a: "apply_dispatches init_state ?eff = ?st"
    by (simp add: apply_dispatches_def reducer_def init_state_def)
  have first: "render_pass get_key regexp_none ?c (Obj 43 []) init_state = Inr (?eff, ?st)"
    unfolding render_pass_def age_example sum.case Let_def e a by (rule refl)
  have h: "render_pass get_key regexp_none ?c (Obj 43 []) init_state = Inr (?eff, ?st) \<and> dispatches ?eff \<noteq> []"
    using first by simp
  from remembered_sets_suppress_writes [where get = get_key and re = regexp_none and c = ?c
      and V = "Obj 43 []" and state = init_state and eff = ?eff and state' = ?st,
      THEN conjunct1, THEN mp, OF h]
  have second: "render_pass get_key regexp_none ?c (Obj 43 []) ?st = Inr (no_effects, ?st)"
    by simp
  have t: "timers (sets_effect ?s init_state) \<noteq> [] \<or> dispatches (sets_effect ?s init_state) \<noteq> []"
    unfolding e by simp
  from remembered_sets_suppress_writes [where setters = ?s and state = init_state,
      THEN conjunct2, THEN mp, OF t]
  have "length_positive ?s" and "initial init_state \<or> \<not> isEqual ?s (sets init_state)"
    by simp_all
  with first second show ?thesis
    unfolding e by (simp add: init_state_def)
qed











text \<open>
  C3, as amended. The field writes of one evaluation pass are deferred to timer
  callbacks, one callback per applied assignment map, in list order; each callback makes
  one \<^verbatim>\<open>batch\<close> call that groups every \<^verbatim>\<open>change\<close> of its map. In the initial state the
  applied maps are the truthy maps of the list; otherwise they are the truthy maps that
  differ from the map remembered at the same index. Only an array candidate schedules
  anything, and a list of \<open>n\<close> maps schedules at most \<open>n\<close> batches.
\<close>

theorem one_batch_per_setter:
  "(initial state \<and> xs \<noteq> [] \<longrightarrow>
      sets_effect (Arr a xs) state =
        \<lparr>timers = map entries (filter truthy xs), dispatches = [remember (Arr a xs)], thrown = None\<rparr>) \<and>
   (\<not> initial state \<and> sets state = Arr b ys \<and> xs \<noteq> [] \<and> \<not> isEqual (Arr a xs) (Arr b ys) \<longrightarrow>
      sets_effect (Arr a xs) state =
        \<lparr>timers = map entries (changed_from 0 ys xs), dispatches = [remember (Arr a xs)], thrown = None\<rparr>) \<and>
   (timers (sets_effect setters state) \<noteq> [] \<longrightarrow> is_array setters) \<and>
   length (timers (sets_effect (Arr a xs) state)) \<le> length xs"
proof -
  have i: "initial state \<and> xs \<noteq> [] \<longrightarrow>
      sets_effect (Arr a xs) state =
        \<lparr>timers = map entries (filter truthy xs), dispatches = [remember (Arr a xs)], thrown = None\<rparr>"
    by (simp add: sets_effect_def schedule_initial remember_def)
  have r: "\<not> initial state \<and> sets state = Arr b ys \<and> xs \<noteq> [] \<and> \<not> isEqual (Arr a xs) (Arr b ys) \<longrightarrow>
      sets_effect (Arr a xs) state =
        \<lparr>timers = map entries (changed_from 0 ys xs), dispatches = [remember (Arr a xs)], thrown = None\<rparr>"
    by (simp add: sets_effect_def schedule_remembered remember_def)
  have o: "timers (sets_effect setters state) \<noteq> [] \<longrightarrow> is_array setters"
    by (cases setters) (auto simp: sets_effect_def)
  have sl: "length (fst (schedule state zs j)) \<le> length zs" for zs j
  proof (induction zs arbitrary: j)
    case Nil
    show ?case by simp
  next
    case (Cons z zs)
    from Cons [of "Suc j"] show ?case
      by (auto split: sum.splits prod.splits)
  qed
  have l: "length (timers (sets_effect (Arr a xs) state)) \<le> length xs"
    using sl [of xs 0] by (auto simp: sets_effect_def split: prod.splits option.splits)
  from i r o l show ?thesis by (intro conjI)
qed

text \<open>
  Two maps in the initial state give two batches; when only the second map differs from
  the remembered list, only the second one is written.
\<close>

theorem one_batch_per_setter_witness:
  "sets_effect (Arr 30 [Obj 31 [(''x'', Num 1)], Obj 32 [(''y'', Num 2)]]) init_state
   = \<lparr>timers = [[(''x'', Num 1)], [(''y'', Num 2)]],
      dispatches = [remember (Arr 30 [Obj 31 [(''x'', Num 1)], Obj 32 [(''y'', Num 2)]])],
      thrown = None\<rparr> \<and>
   sets_effect (Arr 30 [Obj 31 [(''x'', Num 1)], Obj 32 [(''y'', Num 2)]])
     \<lparr>initial = False, sets = Arr 33 [Obj 34 [(''x'', Num 1)], Obj 35 [(''y'', Num 3)]]\<rparr>
   = \<lparr>timers = [[(''y'', Num 2)]],
      dispatches = [remember (Arr 30 [Obj 31 [(''x'', Num 1)], Obj 32 [(''y'', Num 2)]])],
      thrown = None\<rparr> \<and>
   length (timers (sets_effect (Arr 30 [Obj 31 [(''x'', Num 1)], Obj 32 [(''y'', Num 2)]]) init_state)) \<le> 2"
proof -
  let ?xs = "[Obj 31 [(''x'', Num 1)], Obj 32 [(''y'', Num 2)]]"
  let ?ys = "[Obj 34 [(''x'', Num 1)], Obj 35 [(''y'', Num 3)]]"
  let ?st = "\<lparr>initial = False, sets = Arr 33 ?ys\<rparr>"
  have hi: "initial init_state \<and> ?xs \<noteq> []"
    by (simp add: init_state_def)
  have hr: "\<not> initial ?st \<and> sets ?st = Arr 33 ?ys \<and> ?xs \<noteq> [] \<and> \<not> isEqual (Arr 30 ?xs) (Arr 33 ?ys)"
    by (simp add: isEqual_Arr isEqual_Obj isEqual_prim)
  have c: "changed_from 0 ?ys ?xs = [Obj 32 [(''y'', Num 2)]]"
    by (simp add: changed_from_Cons changed_from_def nth_or_undefined_def isEqual_Obj isEqual_prim)
  note i = one_batch_per_setter [where state = init_state and xs = ?xs and a = 30,
      THEN conjunct1, THEN mp, OF hi]
  note r = one_batch_per_setter [where state = ?st and xs = ?xs and a = 30 and b = 33 and ys = ?ys,
      THEN conjunct2, THEN conjunct1, THEN mp, OF hr]
  have l: "length (timers (sets_effect (Arr 30 ?xs) init_state)) \<le> 2"
    using one_batch_per_setter [where state = init_state and xs = ?xs and a = 30,
      THEN conjunct2, THEN conjunct2, THEN conjunct2] by simp
  from l show ?thesis
    unfolding i r c by simp
qed

text \<open>
  C3, as the specification states it, fails on the \<^verbatim>\<open>sequence\<close> example of the
  specification: the pass yields two assignment maps, and the effect schedules two timer
  callbacks with one batch each, not a single batch.
\<close>

theorem one_batch_per_setter_counterexample:
  "parseCondition get_key regexp_none
      (Obj 10 [(''sequence'', Arr 11
         [Obj 12 [(''when'', Str ''a''), (''is'', Num 1), (''then'', Obj 13 [(''set'', Obj 14 [(''x'', Num 1)])])],
          Obj 15 [(''when'', Str ''b''), (''is'', Num 2), (''then'', Obj 16 [(''set'', Obj 17 [(''y'', Num 2)])])]])])
      (Obj 18 [(''a'', Num 1), (''b'', Num 2)])
   = Inr [''sets'' \<mapsto> Arr 0 [Obj 14 [(''x'', Num 1)], Obj 17 [(''y'', Num 2)]],
          ''visible'' \<mapsto> Bool True, ''result'' \<mapsto> Bool True] \<and>
   setters_of [''sets'' \<mapsto> Arr 0 [Obj 14 [(''x'', Num 1)], Obj 17 [(''y'', Num 2)]],
          ''visible'' \<mapsto> Bool True, ''result'' \<mapsto> Bool True]
   = Arr 0 [Obj 14 [(''x'', Num 1)], Obj 17 [(''y'', Num 2)]] \<and>
   timers (sets_effect (Arr 0 [Obj 14 [(''x'', Num 1)], Obj 17 [(''y'', Num 2)]]) init_state)
   = [[(''x'', Num 1)], [(''y'', Num 2)]]"
proof -
  let ?V = "Obj 18 [(''a'', Num 1), (''b'', Num 2)]"
  let ?p = "Obj 12 [(''when'', Str ''a''), (''is'', Num 1), (''then'', Obj 13 [(''set'', Obj 14 [(''x'', Num 1)])])]"
  let ?q = "Obj 15 [(''when'', Str ''b''), (''is'', Num 2), (''then'', Obj 16 [(''set'', Obj 17 [(''y'', Num 2)])])]"
  let ?c = "Obj 10 [(''sequence'', Arr 11 [?p, ?q])]"
  let ?rs = "[positiveResult ?p, positiveResult ?q]"
  have p: "parseCondition get_key regexp_none ?p ?V = Inr (positiveResult ?p)"
    by (simp add: leaf_eval)
  have q: "parseCondition get_key regexp_none ?q ?V = Inr (positiveResult ?q)"
    by (simp add: leaf_eval)
  have rs: "sequence_results (map (\<lambda>c. parseCondition get_key regexp_none c ?V) [?p, ?q]) = Inr ?rs"
    by (simp add: p q)
  have n: "node ?c" and a: "\<not> truthy (field ?c ''and'')"
    and sq: "field ?c ''sequence'' = Arr 11 [?p, ?q]"
    by (simp_all add: node_def)
  have s': "concat (map set_of_result ?rs) = [Obj 14 [(''x'', Num 1)], Obj 17 [(''y'', Num 2)]]"
    by (simp add: set_of_result_def rprop_def positiveResult_apply spread_def)
  have v': "foldl js_or (rprop (negativeResult ?c) ''visible'') (map (\<lambda>r. rprop r ''visible'') ?rs) = Bool True"
    by (simp add: js_or_def rprop_def positiveResult_apply negativeResult_apply spread_def)
  have f': "foldl js_or (Bool False) (map (\<lambda>r. rprop r ''result'') ?rs) = Bool True"
    by (simp add: js_or_def rprop_def positiveResult_apply)
  have c: "parseCondition get_key regexp_none ?c ?V
     = Inr [''sets'' \<mapsto> Arr 0 [Obj 14 [(''x'', Num 1)], Obj 17 [(''y'', Num 2)]],
          ''visible'' \<mapsto> Bool True, ''result'' \<mapsto> Bool True]"
    unfolding parseCondition_sequence_eq [OF n a sq] rs sum.case s' v' f'
    by (simp add: new_array_def)
  have t: "setters_of [''sets'' \<mapsto> Arr 0 [Obj 14 [(''x'', Num 1)], Obj 17 [(''y'', Num 2)]],
          ''visible'' \<mapsto> Bool True, ''result'' \<mapsto> Bool True]
      = Arr 0 [Obj 14 [(''x'', Num 1)], Obj 17 [(''y'', Num 2)]]"
    by (simp add: setters_of_def rprop_def)
  have e: "timers (sets_effect (Arr 0 [Obj 14 [(''x'', Num 1)], Obj 17 [(''y'', Num 2)]]) init_state)
      = [[(''x'', Num 1)], [(''y'', Num 2)]]"
    by (simp add: sets_effect_def init_state_def)
  from c t e show ?thesis by (intro conjI)
qed

end
